theory Spec2Isabelle
  imports Complex_Main
begin

section \<open>Playback state detector (connectors/v2/youtube.js)\<close>

text \<open>
  The page offset that jQuery's \<open>offset()\<close> reports for the player element.
  The query \<open>$('#player-api')\<close> (or \<open>$('#player-container')\<close>) is modelled by an
  \<open>offset option\<close>: \<open>None\<close> is the empty collection (\<open>$player.length === 0\<close>).
\<close>

record offset =
  offset_left :: real
  offset_top :: real

text \<open>\<open>Connector.isPlayerOffscreen\<close> as installed by \<open>setupDefaultPlayer\<close>.\<close>

definition isPlayerOffscreen_default :: "offset option \<Rightarrow> bool" where
  "isPlayerOffscreen_default player =
     (case player of
        None \<Rightarrow> False
      | Some off \<Rightarrow> offset_left off < 0 \<or> offset_top off < 0)"

text \<open>\<open>Connector.isPlayerOffscreen\<close> as installed by \<open>setupMaterialPlayer\<close>.\<close>

definition isPlayerOffscreen_material :: "offset option \<Rightarrow> bool" where
  "isPlayerOffscreen_material player =
     (case player of
        None \<Rightarrow> False
      | Some off \<Rightarrow> offset_left off \<le> 0 \<or> offset_top off \<le> 0)"

text \<open>
  What one run of the mutation observer's callback does to the outside world:
  it calls \<open>Connector.onStateChanged()\<close>, or it attaches the \<open>timeupdate\<close> listener
  to the video element, or nothing.
\<close>

datatype action = StateChanged | AttachTimeupdate

text \<open>
  The callback of \<open>setupMutationObserver\<close>. Its only state is the closure variable
  \<open>isMusicVideoPresent\<close>; the first argument is what \<open>Connector.isPlayerOffscreen()\<close>
  returned for this mutation.
\<close>

definition observer_callback :: "bool \<Rightarrow> bool \<Rightarrow> action list \<times> bool" where
  "observer_callback offscreen isMusicVideoPresent =
     (if offscreen then ([StateChanged], isMusicVideoPresent)
      else if isMusicVideoPresent then ([], isMusicVideoPresent)
      else ([AttachTimeupdate], True))"

text \<open>The observer fed a sequence of mutations; the actions are kept per mutation.\<close>

fun run_observer :: "bool \<Rightarrow> bool list \<Rightarrow> action list list \<times> bool" where
  "run_observer present [] = ([], present)"
| "run_observer present (offscreen # rest) =
     (let (acts, present') = observer_callback offscreen present;
          (more, final) = run_observer present' rest
      in (acts # more, final))"

abbreviation (input) on_surface :: bool where "on_surface \<equiv> False"
abbreviation (input) off_surface :: bool where "off_surface \<equiv> True"

definition attach_count :: "action list list \<Rightarrow> nat" where
  "attach_count tr = length (filter (\<lambda>a. a = AttachTimeupdate) (concat tr))"

section \<open>JavaScript values and strings\<close>

text \<open>
  The values a metadata field or a title can hold. Strings are lists of code units;
  the model covers the code units below 256, so that \<open>char\<close> can stand for them.
  Numbers only matter here as values that are not strings.
\<close>

datatype jsval = JUndefined | JNull | JBool bool | JNum real | JNaN | JStr string

datatype exn = TypeError

text \<open>JavaScript's \<open>!v\<close>.\<close>

fun falsy :: "jsval \<Rightarrow> bool" where
  "falsy JUndefined = True"
| "falsy JNull = True"
| "falsy (JBool b) = (\<not> b)"
| "falsy (JNum x) = (x = 0)"
| "falsy JNaN = True"
| "falsy (JStr s) = (s = [])"

text \<open>
  The class \<open>\s\<close> of regular expressions, which is also what \<open>String.prototype.trim\<close>
  strips: white space and line terminators (TAB, LF, VT, FF, CR, SP, NBSP below 256).
\<close>

definition is_space :: "char \<Rightarrow> bool" where
  "is_space c = (c \<in> set [CHR 0x09, CHR 0x0A, CHR 0x0B, CHR 0x0C, CHR 0x0D, CHR 0x20, CHR 0xA0])"

text \<open>\<open>String.prototype.trim\<close>.\<close>

definition str_trim :: "string \<Rightarrow> string" where
  "str_trim s = rev (dropWhile is_space (rev (dropWhile is_space s)))"

section \<open>Metadata filter (core/content/filter.js)\<close>

text \<open>
  A filter function takes the field's value and returns the new value, or throws.
  The value of a property of a filter set is a function, an array, or something else
  (a primitive value, \<open>undefined\<close> for an absent property, or an object that is neither
  a function nor an array). An array or an object may have a \<open>Symbol.toStringTag\<close>
  property, which \<open>Object.prototype.toString\<close> then reports instead of the built-in
  class; it is the first argument of \<open>EArray\<close> and the argument of \<open>EObject\<close>. The
  objects of the model have no method \<open>concat\<close>.
\<close>

type_synonym filter_fn = "jsval \<Rightarrow> exn + jsval"

datatype entry =
    EFunction filter_fn
  | EArray "string option" "entry list"
  | EPrim jsval
  | EObject "string option"

text \<open>The class in \<open>Object.prototype.toString.call(v)\<close>, which is \<open>[object Class]\<close>.\<close>

fun toString_tag :: "entry \<Rightarrow> string" where
  "toString_tag (EFunction f) = ''Function''"
| "toString_tag (EArray tag xs) = (case tag of None \<Rightarrow> ''Array'' | Some t \<Rightarrow> t)"
| "toString_tag (EObject tag) = (case tag of None \<Rightarrow> ''Object'' | Some t \<Rightarrow> t)"
| "toString_tag (EPrim JUndefined) = ''Undefined''"
| "toString_tag (EPrim JNull) = ''Null''"
| "toString_tag (EPrim (JBool b)) = ''Boolean''"
| "toString_tag (EPrim (JNum x)) = ''Number''"
| "toString_tag (EPrim JNaN) = ''Number''"
| "toString_tag (EPrim (JStr s)) = ''String''"

text \<open>A filter set is an object; reading a property it does not have gives \<open>undefined\<close>.\<close>

type_synonym filterSet = "string \<rightharpoonup> entry"

definition get_prop :: "filterSet \<Rightarrow> string \<Rightarrow> entry" where
  "get_prop filterSet name = (case filterSet name of None \<Rightarrow> EPrim JUndefined | Some e \<Rightarrow> e)"

datatype field = Artist | Track | Album

fun field_name :: "field \<Rightarrow> string" where
  "field_name Artist = ''artist''"
| "field_name Track = ''track''"
| "field_name Album = ''album''"

text \<open>
  \<open>createFilters\<close> returns a value: a new array, or its argument when
  \<open>Object.prototype.toString\<close> reports an array.
\<close>

definition createFilters :: "entry \<Rightarrow> entry" where
  "createFilters filters =
     (case filters of
        EFunction filterFunction \<Rightarrow> EArray None [EFunction filterFunction]
      | _ \<Rightarrow> if toString_tag filters = ''Array'' then filters else EArray None [])"

text \<open>
  An argument of \<open>Array.prototype.concat\<close>: the elements of an array are appended,
  any other value is appended as one element.
\<close>

fun concat_arg :: "entry \<Rightarrow> entry list" where
  "concat_arg (EArray tag ys) = ys"
| "concat_arg v = [v]"

text \<open>
  One turn of the loop of \<open>createMergedFilters\<close>:
  \<open>createFilters(filterSet[field]).concat(createFilters(filterSet.all))\<close>. The call of
  \<open>concat\<close> throws when the first value is not an array.
\<close>

definition merge_field :: "filterSet \<Rightarrow> field \<Rightarrow> exn + entry list" where
  "merge_field filterSet field =
     (case createFilters (get_prop filterSet (field_name field)) of
        EArray tag xs \<Rightarrow> Inr (xs @ concat_arg (createFilters (get_prop filterSet ''all'')))
      | _ \<Rightarrow> Inl TypeError)"

text \<open>
  \<open>createMergedFilters\<close>: the loop over \<open>['artist', 'track', 'album']\<close> stores one array
  per field, in this order, unless a turn throws; the merged object is read here as a
  function of the field.
\<close>

type_synonym mergedFilterSet = "field \<Rightarrow> entry list"

definition createMergedFilters :: "filterSet \<Rightarrow> exn + mergedFilterSet" where
  "createMergedFilters filterSet =
     (case merge_field filterSet Artist of
        Inl e \<Rightarrow> Inl e
      | Inr artist \<Rightarrow>
     (case merge_field filterSet Track of
        Inl e \<Rightarrow> Inl e
      | Inr track \<Rightarrow>
     (case merge_field filterSet Album of
        Inl e \<Rightarrow> Inl e
      | Inr album \<Rightarrow>
          Inr (\<lambda>field. case field of Artist \<Rightarrow> artist | Track \<Rightarrow> track | Album \<Rightarrow> album))))"

text \<open>
  The result of filtering a field: the arguments the filter functions were called
  with, one per call and in call order, and the value returned or the exception thrown.
\<close>

type_synonym filtered = "jsval list \<times> (exn + jsval)"

text \<open>
  The \<open>forEach\<close> loop of \<open>filterField\<close>. Calling an element that is not a function
  throws a \<open>TypeError\<close>; an exception leaves the loop and the function.
\<close>

fun forEach_filter :: "entry list \<Rightarrow> jsval list \<Rightarrow> jsval \<Rightarrow> filtered" where
  "forEach_filter [] calls text = (calls, Inr text)"
| "forEach_filter (EFunction filter_f # filters) calls text =
     (case filter_f text of
        Inl e \<Rightarrow> (calls @ [text], Inl e)
      | Inr text' \<Rightarrow> forEach_filter filters (calls @ [text]) text')"
| "forEach_filter (_ # filters) calls text = (calls, Inl TypeError)"

definition filterField :: "jsval \<Rightarrow> entry list \<Rightarrow> filtered" where
  "filterField text filters =
     (if text = JNull \<or> text = JStr [] then ([], Inr text)
      else forEach_filter filters [] text)"

definition filterArtist :: "mergedFilterSet \<Rightarrow> jsval \<Rightarrow> filtered" where
  "filterArtist mergedFilterSet text = filterField text (mergedFilterSet Artist)"

definition filterTrack :: "mergedFilterSet \<Rightarrow> jsval \<Rightarrow> filtered" where
  "filterTrack mergedFilterSet text = filterField text (mergedFilterSet Track)"

definition filterAlbum :: "mergedFilterSet \<Rightarrow> jsval \<Rightarrow> filtered" where
  "filterAlbum mergedFilterSet text = filterField text (mergedFilterSet Album)"

text \<open>The three methods of a \<open>MetadataFilter\<close> object, selected by field.\<close>

fun applyFilter :: "mergedFilterSet \<Rightarrow> field \<Rightarrow> jsval \<Rightarrow> filtered" where
  "applyFilter m Artist text = filterArtist m text"
| "applyFilter m Track text = filterTrack m text"
| "applyFilter m Album text = filterAlbum m text"

text \<open>\<open>MetadataFilter.trim\<close>: \<open>text.trim()\<close> throws unless \<open>text\<close> is a string.\<close>

fun trim :: filter_fn where
  "trim (JStr s) = Inr (JStr (str_trim s))"
| "trim _ = Inl TypeError"

section \<open>Regular expressions\<close>

text \<open>
  The patterns of \<open>filter.js\<close> and \<open>youtube.js\<close> are JavaScript regular expressions.
  They are embedded as terms of the datatype \<open>regex\<close>, and matched by a backtracking
  matcher that follows the ECMAScript semantics: alternatives are tried from left to
  right, \<open>*\<close>, \<open>+\<close> and \<open>?\<close> are greedy, \<open>+?\<close> is lazy, and an iteration of a
  quantifier that consumes nothing is rejected.

  A matcher state is a position in the input: whether it is the start of the input
  (for \<open>^\<close>), the input that remains (for \<open>$\<close> and the next code unit), and the
  captures so far, most recent first.
\<close>

record mstate =
  at_start :: bool
  remaining :: string
  captures :: "(nat \<times> string) list"

text \<open>
  \<open>Atom p\<close> is one code unit of a class, \<open>Opt\<close> is \<open>?\<close>, \<open>Star\<close> is \<open>*\<close>,
  \<open>LazyStar\<close> is \<open>*?\<close>, \<open>Group n\<close> is the \<open>n\<close>-th pair of capturing parentheses,
  \<open>Bol\<close> and \<open>Eol\<close> are \<open>^\<close> and \<open>$\<close> (no pattern of the source has the \<open>m\<close> flag).
\<close>

datatype regex =
    Empty
  | Atom "char \<Rightarrow> bool"
  | Seq regex regex
  | Alt regex regex
  | Opt regex
  | Star regex
  | LazyStar regex
  | Group nat regex
  | Bol
  | Eol

text \<open>The state \<open>st'\<close> is further in the input than \<open>st\<close>.\<close>

definition shorter :: "mstate \<Rightarrow> mstate \<Rightarrow> bool" where
  "shorter st st' = (length (remaining st') < length (remaining st))"

text \<open>
  All the ways a pattern matches from a state, in the order in which backtracking
  tries them: the head of the list is the match that JavaScript reports. No pattern
  of the source has a group under \<open>*\<close> or \<open>+\<close>, so captures are never reset.
\<close>

function matches :: "regex \<Rightarrow> mstate \<Rightarrow> mstate list" where
  "matches Empty st = [st]"
| "matches (Atom p) st =
     (case remaining st of
        [] \<Rightarrow> []
      | x # xs \<Rightarrow> if p x then [st\<lparr>at_start := False, remaining := xs\<rparr>] else [])"
| "matches (Seq r1 r2) st = concat (map (matches r2) (matches r1 st))"
| "matches (Alt r1 r2) st = matches r1 st @ matches r2 st"
| "matches (Opt r) st = filter (shorter st) (matches r st) @ [st]"
| "matches (Star r) st =
     concat (map (matches (Star r)) (filter (shorter st) (matches r st))) @ [st]"
| "matches (LazyStar r) st =
     st # concat (map (matches (LazyStar r)) (filter (shorter st) (matches r st)))"
| "matches (Group n r) st =
     map (\<lambda>st'. st'\<lparr>captures :=
                    (n, take (length (remaining st) - length (remaining st')) (remaining st))
                      # captures st'\<rparr>)
         (matches r st)"
| "matches Bol st = (if at_start st then [st] else [])"
| "matches Eol st = (if remaining st = [] then [st] else [])"
  by pat_completeness auto
termination
  by (relation "measures [\<lambda>(r, st). size r, \<lambda>(r, st). length (remaining st)]")
     (auto simp: shorter_def)

declare matches.simps [simp del]

text \<open>
  A successful search: the input before the match, the matched text, the captures,
  and the input after the match.
\<close>

record found =
  skipped :: string
  matched :: string
  groups :: "(nat \<times> string) list"
  rest :: string

text \<open>
  The search loop of \<open>RegExp.prototype.exec\<close>: try the pattern at the current
  position, then one code unit further, until the input is exhausted.
\<close>

fun regex_search :: "regex \<Rightarrow> bool \<Rightarrow> string \<Rightarrow> found option" where
  "regex_search r b s =
     (case matches r \<lparr>at_start = b, remaining = s, captures = []\<rparr> of
        st # _ \<Rightarrow>
          Some \<lparr>skipped = [], matched = take (length s - length (remaining st)) s,
                groups = captures st, rest = remaining st\<rparr>
      | [] \<Rightarrow>
         (case s of
            [] \<Rightarrow> None
          | x # xs \<Rightarrow>
             (case regex_search r False xs of
                None \<Rightarrow> None
              | Some f \<Rightarrow> Some (f\<lparr>skipped := x # skipped f\<rparr>))))"

declare regex_search.simps [simp del]

text \<open>
  A replacement string: literal text and references \<open>$n\<close> to a capture. A group
  that took no part in the match is replaced by the empty string.
\<close>

datatype repl = Lit string | Ref nat

fun expand :: "repl list \<Rightarrow> (nat \<times> string) list \<Rightarrow> string" where
  "expand [] c = []"
| "expand (Lit s # t) c = s @ expand t c"
| "expand (Ref n # t) c = (case map_of c n of None \<Rightarrow> [] | Some g \<Rightarrow> g) @ expand t c"

text \<open>\<open>String.prototype.replace\<close> with a pattern that has no \<open>g\<close> flag.\<close>

definition replace_first :: "regex \<Rightarrow> repl list \<Rightarrow> string \<Rightarrow> string" where
  "replace_first r target s =
     (case regex_search r True s of
        None \<Rightarrow> s
      | Some f \<Rightarrow> skipped f @ expand target (groups f) @ rest f)"

text \<open>
  A match leaves a suffix of the input; a search splits the input in three. The
  replacement of all matches below terminates because of this.
\<close>

lemma matches_suffix:
  "st' \<in> set (matches r st) \<Longrightarrow> \<exists>m. remaining st = m @ remaining st'"
proof (induction r st arbitrary: st' rule: matches.induct)
  case (1 st)
  then show ?case by (simp add: matches.simps)
next
  case (2 p st)
  then show ?case
    by (cases "remaining st") (auto simp: matches.simps split: if_splits)
next
  case (3 r1 r2 st)
  from "3.prems" obtain st1 where "st1 \<in> set (matches r1 st)" "st' \<in> set (matches r2 st1)"
    by (auto simp: matches.simps)
  with "3.IH" obtain m1 m2 where "remaining st = m1 @ remaining st1" "remaining st1 = m2 @ remaining st'"
    by blast
  then show ?case by simp
next
  case (4 r1 r2 st)
  from "4.prems" have "st' \<in> set (matches r1 st) \<or> st' \<in> set (matches r2 st)"
    by (simp add: matches.simps)
  with "4.IH" show ?case by blast
next
  case (5 r st)
  then show ?case by (auto simp: matches.simps)
next
  case (6 r st)
  from "6.prems" consider "st' = st"
    | st1 where "st1 \<in> set (matches r st)" "shorter st st1" "st' \<in> set (matches (Star r) st1)"
    by (auto simp: matches.simps(6) [of r st])
  then show ?case
  proof cases
    case 1
    then show ?thesis by simp
  next
    case 2
    from 2 have mem: "st1 \<in> set (filter (shorter st) (matches r st))" by simp
    from "6.IH" (1) [OF 2(1)] obtain m1 where "remaining st = m1 @ remaining st1" ..
    moreover from "6.IH" (2) [OF mem 2(3)] obtain m2 where "remaining st1 = m2 @ remaining st'" ..
    ultimately show ?thesis by simp
  qed
next
  case (7 r st)
  from "7.prems" consider "st' = st"
    | st1 where "st1 \<in> set (matches r st)" "shorter st st1" "st' \<in> set (matches (LazyStar r) st1)"
    by (auto simp: matches.simps(7) [of r st])
  then show ?case
  proof cases
    case 1
    then show ?thesis by simp
  next
    case 2
    from 2 have mem: "st1 \<in> set (filter (shorter st) (matches r st))" by simp
    from "7.IH" (1) [OF 2(1)] obtain m1 where "remaining st = m1 @ remaining st1" ..
    moreover from "7.IH" (2) [OF mem 2(3)] obtain m2 where "remaining st1 = m2 @ remaining st'" ..
    ultimately show ?thesis by simp
  qed
next
  case (8 n r st)
  then show ?case by (auto simp: matches.simps)
next
  case (9 st)
  then show ?case by (auto simp: matches.simps split: if_splits)
next
  case (10 st)
  then show ?case by (auto simp: matches.simps split: if_splits)
qed

lemma regex_search_parts:
  "regex_search r b s = Some f \<Longrightarrow> s = skipped f @ matched f @ rest f"
proof (induction s arbitrary: b f)
  case Nil
  then show ?case
    using matches_suffix [of _ r "\<lparr>at_start = b, remaining = [], captures = []\<rparr>"]
    by (auto simp: regex_search.simps [of r b "[]"] split: list.splits)
next
  case (Cons x xs)
  show ?case
  proof (cases "matches r \<lparr>at_start = b, remaining = x # xs, captures = []\<rparr>")
    case Nil
    with Cons show ?thesis
      by (auto simp: regex_search.simps [of r b "x # xs"] split: option.splits)
  next
    case hit: (Cons st sts)
    then obtain k where k: "x # xs = k @ remaining st"
      using matches_suffix [of st r "\<lparr>at_start = b, remaining = x # xs, captures = []\<rparr>"] by auto
    from hit Cons.prems have "skipped f = []" "rest f = remaining st"
      "matched f = take (length (x # xs) - length (remaining st)) (x # xs)"
      by (auto simp: regex_search.simps [of r b "x # xs"])
    then show ?thesis
      by (simp add: k)
  qed
qed

text \<open>
  \<open>String.prototype.replace\<close> with a pattern that has the \<open>g\<close> flag: after a match
  the search goes on behind it, and one code unit further after an empty match.
\<close>

function replace_all :: "regex \<Rightarrow> repl list \<Rightarrow> bool \<Rightarrow> string \<Rightarrow> string" where
  "replace_all r target b s =
     (case regex_search r b s of
        None \<Rightarrow> s
      | Some f \<Rightarrow>
          skipped f @ expand target (groups f) @
            (if matched f = [] then (case rest f of [] \<Rightarrow> [] | x # xs \<Rightarrow> x # replace_all r target False xs)
             else replace_all r target False (rest f)))"
  by pat_completeness auto
termination
proof (relation "measure (\<lambda>(r, target, b, s). length s)")
  show "wf (measure (\<lambda>(r, target, b, s). length s))" by simp
next
  fix r :: regex and target :: "repl list" and b s f x xs
  assume "regex_search r b s = Some f" "rest f = x # xs"
  then show "((r, target, False, xs), r, target, b, s) \<in> measure (\<lambda>(r, target, b, s). length s)"
    using regex_search_parts [of r b s f] by simp
next
  fix r :: regex and target :: "repl list" and b s f
  assume "regex_search r b s = Some f" "matched f \<noteq> []"
  then show "((r, target, False, rest f), r, target, b, s) \<in> measure (\<lambda>(r, target, b, s). length s)"
    using regex_search_parts [of r b s f] by simp
qed

declare replace_all.simps [simp del]

subsection \<open>Pattern syntax\<close>

definition chr :: "char \<Rightarrow> regex" where
  "chr c = Atom (\<lambda>x. x = c)"

text \<open>
  With the \<open>i\<close> flag two code units match when their canonical forms (upper case) are
  equal. The patterns of the source only have ASCII letters, and a code unit from 128
  on never canonicalises to an ASCII one, so only the ASCII letters need a mapping.
\<close>

definition to_upper :: "char \<Rightarrow> char" where
  "to_upper c =
     (case map_of (zip ''abcdefghijklmnopqrstuvwxyz'' ''ABCDEFGHIJKLMNOPQRSTUVWXYZ'') c of
        None \<Rightarrow> c
      | Some u \<Rightarrow> u)"

definition chr_i :: "char \<Rightarrow> regex" where
  "chr_i c = Atom (\<lambda>x. to_upper x = to_upper c)"

definition seqs :: "regex list \<Rightarrow> regex" where
  "seqs rs = foldr Seq rs Empty"

definition lit :: "string \<Rightarrow> regex" where
  "lit s = seqs (map chr s)"

definition lit_i :: "string \<Rightarrow> regex" where
  "lit_i s = seqs (map chr_i s)"

text \<open>The dot: any code unit but a line terminator.\<close>

definition any_char :: regex where
  "any_char = Atom (\<lambda>x. x \<noteq> CHR 0x0A \<and> x \<noteq> CHR 0x0D)"

definition ws :: regex where
  "ws = Atom is_space"

definition non_space :: regex where
  "non_space = Atom (\<lambda>x. \<not> is_space x)"

definition digit :: regex where
  "digit = Atom (\<lambda>x. x \<in> set ''0123456789'')"

definition none_of :: "string \<Rightarrow> regex" where
  "none_of cs = Atom (\<lambda>x. x \<notin> set cs)"

definition Plus :: "regex \<Rightarrow> regex" where
  "Plus r = Seq r (Star r)"

definition LazyPlus :: "regex \<Rightarrow> regex" where
  "LazyPlus r = Seq r (LazyStar r)"

section \<open>Replace rules and presets (core/content/filter.js)\<close>

text \<open>
  A replace rule of a filter set: the \<open>source\<close> pattern, its \<open>g\<close> flag (the \<open>i\<close> flag
  is in the pattern's atoms), and the \<open>target\<close> replacement.
\<close>

record rule =
  source :: regex
  global :: bool
  target :: "repl list"

text \<open>\<open>text.replace(data.source, data.target)\<close>.\<close>

definition str_replace :: "string \<Rightarrow> rule \<Rightarrow> string" where
  "str_replace text data =
     (if global data then replace_all (source data) (target data) True text
      else replace_first (source data) (target data) text)"

fun filterWithFilterSet :: "string \<Rightarrow> rule list \<Rightarrow> string" where
  "filterWithFilterSet text [] = text"
| "filterWithFilterSet text (data # set') = filterWithFilterSet (str_replace text data) set'"

text \<open>A rule without the \<open>g\<close> flag that replaces by the empty string.\<close>

definition rx :: "regex list \<Rightarrow> rule" where
  "rx rs = \<lparr>source = seqs rs, global = False, target = []\<rparr>"

definition dq :: char where "dq = CHR 0x22"
definition sq :: char where "sq = CHR 0x27"

text \<open>\<open>of+icial\<close> under the \<open>i\<close> flag.\<close>

definition official :: regex where
  "official = seqs [chr_i CHR ''o'', Plus (chr_i CHR ''f''), lit_i ''icial'']"

text \<open>
  The classes \<open>[\/\s,:;~-\s"]\<close> and \<open>[\/\s,:;~-\s"\s!]\<close>: a range with a class escape
  as a bound is the union of both bounds and the hyphen.
\<close>

definition trim_class :: regex where
  "trim_class = Atom (\<lambda>x. is_space x \<or> x \<in> set (''/,:;~-'' @ [dq]))"

definition trim_class_excl :: regex where
  "trim_class_excl = Atom (\<lambda>x. is_space x \<or> x \<in> set (''/,:;~-!'' @ [dq]))"

definition YOUTUBE_TRACK_FILTERS :: "rule list" where
  "YOUTUBE_TRACK_FILTERS = [
     \<lparr>source = Alt (Seq Bol (Plus ws)) (Seq (Plus ws) Eol), global = True, target = []\<rparr>,
     rx [Star ws, Plus (chr CHR ''*''), Opt ws, Plus non_space, Opt ws, Plus (chr CHR ''*''), Eol],
     rx [Star ws, chr CHR ''['', Plus (none_of '']''), chr CHR '']'', Eol],
     rx [Star ws, chr CHR ''('', Star (none_of '')''), lit_i ''version'', chr CHR '')'', Eol],
     rx [Star ws, chr CHR ''.'',
         Group 1 (Alt (lit_i ''avi'') (Alt (lit_i ''wmv'') (Alt (lit_i ''mpg'')
                 (Alt (lit_i ''mpeg'') (lit_i ''flv''))))), Eol],
     rx [Star ws, Opt (Group 1 (Seq (lit_i ''LYRIC VIDEO'') (Star ws))),
         Group 2 (Seq (lit_i ''lyric video'') (Star ws))],
     rx [Star ws, Group 1 (Seq (lit_i ''Official Track Strea'') (Star (chr_i CHR ''m'')))],
     rx [Star ws, Opt (Group 1 (Seq official (Star ws))),
         Opt (Group 2 (Seq (lit_i ''music'') (Star ws))), lit_i ''video''],
     rx [Star ws, Opt (Group 1 (Seq official (Star ws))),
         Opt (Group 2 (Seq (lit_i ''music'') (Star ws))), lit_i ''audio''],
     rx [Star ws, Opt (Group 1 (Seq (lit_i ''ALBUM TRACK'') (Star ws))),
         Group 2 (Seq (lit_i ''album track'') (Star ws))],
     rx [Star ws, Opt (Group 1 (Seq (lit_i ''COVER ART'') (Star ws))),
         Group 2 (Seq (lit_i ''Cover Art'') (Star ws))],
     rx [Star ws, chr CHR ''('', Star ws, official, Star ws, chr CHR '')''],
     rx [Star ws, chr CHR ''('', Star ws, digit, digit, digit, digit, Star ws, chr CHR '')''],
     rx [Plus ws, chr CHR ''('', Star ws, Group 1 (Alt (lit ''HD'') (lit ''HQ'')), Star ws,
         chr CHR '')'', Eol],
     rx [Plus ws, Group 1 (Alt (lit ''HD'') (lit ''HQ'')), Star ws, Eol],
     rx [Star ws, lit_i ''video'', Star ws, lit_i ''clip''],
     rx [Star ws, lit_i ''full'', Star ws, lit_i ''album''],
     rx [Plus ws, Opt (chr CHR ''(''), lit_i ''live'', Opt (chr CHR '')''), Eol],
     rx [Plus (chr CHR ''(''), Star ws, Plus (chr CHR '')'')],
     \<lparr>source = seqs [Bol, Group 1 (Alt Empty (Seq (Star any_char) ws)), chr dq,
                      Group 2 (Star any_char), chr dq,
                      Group 3 (Alt (Seq ws (Star any_char)) Empty), Eol],
      global = False, target = [Ref 2]\<rparr>,
     \<lparr>source = seqs [Bol, Group 1 (Alt Empty (Seq (Star any_char) ws)), chr sq,
                      Group 2 (Star any_char), chr sq,
                      Group 3 (Alt (Seq ws (Star any_char)) Empty), Eol],
      global = False, target = [Ref 2]\<rparr>,
     rx [Bol, Plus trim_class],
     rx [Plus trim_class_excl, Eol]
   ]"

definition REMASTERED_FILTERS :: "rule list" where
  "REMASTERED_FILTERS = [
     rx [chr CHR ''-'', ws, lit ''Remastered'', Eol],
     rx [chr CHR ''-'', ws, lit ''Remastered'', ws, Plus digit, Eol],
     rx [chr CHR ''('', lit ''Remastered'', ws, Plus digit, chr CHR '')'', Eol],
     rx [chr CHR ''['', Plus digit, ws, chr CHR ''-'', ws, lit ''Remaster'', chr CHR '']'', Eol],
     rx [chr CHR ''('', Plus digit, ws, chr CHR ''-'', ws, lit ''Remaster'', chr CHR '')'', Eol],
     rx [chr CHR ''-'', ws, Plus digit, ws, chr CHR ''-'', ws, lit ''Remaster'', Eol],
     rx [chr CHR ''-'', ws, Plus digit, ws, LazyPlus any_char, ws, lit ''Remaster'', Eol],
     rx [chr CHR ''-'', ws, Plus digit, ws, lit ''Remastered Version'', Eol],
     rx [chr CHR ''('', lit_i ''Live'', ws, chr CHR ''/'', ws, lit_i ''Remastered'', chr CHR '')'', Eol],
     rx [chr CHR ''-'', ws, lit ''Live'', ws, chr CHR ''/'', ws, lit ''Remastered'', Eol]
   ]"

text \<open>
  \<open>MetadataFilter.youtube\<close> and \<open>MetadataFilter.removeRemastered\<close>; \<open>text.replace\<close>
  throws unless \<open>text\<close> is a string.
\<close>

fun youtube :: filter_fn where
  "youtube (JStr s) = Inr (JStr (filterWithFilterSet s YOUTUBE_TRACK_FILTERS))"
| "youtube _ = Inl TypeError"

fun removeRemastered :: filter_fn where
  "removeRemastered (JStr s) = Inr (JStr (filterWithFilterSet s REMASTERED_FILTERS))"
| "removeRemastered _ = Inl TypeError"

text \<open>
  The constructor keeps the merged filter set, or throws; the presets call it.
\<close>

definition MetadataFilter :: "filterSet \<Rightarrow> exn + mergedFilterSet" where
  "MetadataFilter filterSet = createMergedFilters filterSet"

definition getTrimFilter :: "exn + mergedFilterSet" where
  "getTrimFilter = MetadataFilter
     [''artist'' \<mapsto> EFunction trim, ''track'' \<mapsto> EFunction trim, ''album'' \<mapsto> EFunction trim]"

definition getYoutubeFilter :: "exn + mergedFilterSet" where
  "getYoutubeFilter = MetadataFilter [''track'' \<mapsto> EFunction youtube, ''all'' \<mapsto> EFunction trim]"

definition getRemasteredFilter :: "exn + mergedFilterSet" where
  "getRemasteredFilter = MetadataFilter
     [''all'' \<mapsto> EFunction trim, ''track'' \<mapsto> EFunction removeRemastered,
      ''album'' \<mapsto> EFunction removeRemastered]"

section \<open>Title splitter (connectors/v2/youtube.js)\<close>

text \<open>The pattern \<open>/^\[[^\]]+\]\s*-*\s*/i\<close> that removes a leading genre tag.\<close>

definition genre_tag :: regex where
  "genre_tag = seqs [Bol, chr CHR ''['', Plus (none_of '']''), chr CHR '']'',
                     Star ws, Star (chr CHR ''-''), Star ws]"

text \<open>The pattern \<open>/(.+?)\s"(.+?)"/\<close> of the fallback.\<close>

definition quoted_title :: regex where
  "quoted_title = seqs [Group 1 (LazyPlus any_char), ws, chr dq, Group 2 (LazyPlus any_char), chr dq]"

text \<open>An element of the array that \<open>String.prototype.match\<close> returns.\<close>

definition capture :: "found \<Rightarrow> nat \<Rightarrow> jsval" where
  "capture f n = (case map_of (groups f) n of None \<Rightarrow> JUndefined | Some g \<Rightarrow> JStr g)"

text \<open>
  \<open>processYoutubeVideoTitle\<close>. \<open>Connector.splitArtistTrack\<close> is not part of these
  files; it is a parameter that returns the pair of the \<open>artist\<close> and \<open>track\<close>
  properties, or throws. The result is the pair \<open>(artist, track)\<close>. A value that is
  truthy and not a string has no \<open>replace\<close> method.
\<close>

definition processYoutubeVideoTitle ::
  "(string \<Rightarrow> exn + jsval \<times> jsval) \<Rightarrow> jsval \<Rightarrow> exn + jsval \<times> jsval" where
  "processYoutubeVideoTitle splitArtistTrack text =
     (if falsy text then Inr (JNull, JNull)
      else case text of
        JStr s \<Rightarrow>
          (let text' = replace_first genre_tag [] s in
           case splitArtistTrack text' of
             Inl e \<Rightarrow> Inl e
           | Inr (artist, track) \<Rightarrow>
               if artist = JNull \<and> track = JNull then
                 (case regex_search quoted_title True text' of
                    Some artistTrack \<Rightarrow> Inr (capture artistTrack 1, capture artistTrack 2)
                  | None \<Rightarrow> Inr (artist, track))
               else Inr (artist, track))
      | _ \<Rightarrow> Inl TypeError)"

section \<open>Notions used in the statements and proofs\<close>



text \<open>The merged filter sets that the three presets construct.\<close>

definition trim_merged :: mergedFilterSet where
  "trim_merged = (\<lambda>field. [EFunction trim])"

definition youtube_merged :: mergedFilterSet where
  "youtube_merged =
     (\<lambda>field. case field of Track \<Rightarrow> [EFunction youtube, EFunction trim] | _ \<Rightarrow> [EFunction trim])"

definition remastered_merged :: mergedFilterSet where
  "remastered_merged =
     (\<lambda>field. case field of Artist \<Rightarrow> [EFunction trim]
                          | _ \<Rightarrow> [EFunction removeRemastered, EFunction trim])"

text \<open>A filter function that always throws, as an input for the engine.\<close>

fun throwing :: filter_fn where
  "throwing text = Inl TypeError"

text \<open>
  What it means that the filters were run as a chain on \<open>v\<close>, with the calls
  \<open>cs\<close> logged: the first call is on \<open>v\<close> itself, the \<open>i\<close>-th call is a call of the
  \<open>i\<close>-th filter, and each later call is on what the call before it returned.
\<close>

definition chain_of_calls :: "entry list \<Rightarrow> jsval \<Rightarrow> jsval list \<Rightarrow> bool" where
  "chain_of_calls fs v cs =
     (length cs \<le> length fs
      \<and> (cs \<noteq> [] \<longrightarrow> hd cs = v)
      \<and> (\<forall>i < length cs. \<exists>f. fs ! i = EFunction f
             \<and> (Suc i < length cs \<longrightarrow> f (cs ! i) = Inr (cs ! Suc i))))"

text \<open>
  The outcome of the last call that was logged: what the filter at that position does
  on the last logged argument.
\<close>

definition last_outcome :: "entry list \<Rightarrow> jsval list \<Rightarrow> (exn + jsval) option" where
  "last_outcome fs cs =
     (if cs = [] \<or> length fs < length cs then None
      else case fs ! (length cs - 1) of EFunction f \<Rightarrow> Some (f (last cs)) | _ \<Rightarrow> None)"

text \<open>
  How a chain ends. It returns \<open>r\<close> when every filter has been called and the last
  call returned \<open>r\<close> (or there is no filter and \<open>r\<close> is the value itself). It throws
  when the last call threw, or when the calls so far returned and the next element
  is not a function.
\<close>

definition chain_outcome :: "entry list \<Rightarrow> jsval \<Rightarrow> jsval list \<Rightarrow> exn + jsval \<Rightarrow> bool" where
  "chain_outcome fs v cs res =
     (case res of
        Inr r \<Rightarrow> length cs = length fs
                 \<and> (if cs = [] then r = v else last_outcome fs cs = Some (Inr r))
      | Inl e \<Rightarrow> last_outcome fs cs = Some (Inl e)
                 \<or> (length cs < length fs \<and> (\<forall>f. fs ! length cs \<noteq> EFunction f) \<and> e = TypeError
                    \<and> (cs = [] \<or> (\<exists>y. last_outcome fs cs = Some (Inr y)))))"

text \<open>A primary splitter that returns \<open>null\<close> for both fields.\<close>

fun null_splitter :: "string \<Rightarrow> exn + jsval \<times> jsval" where
  "null_splitter text = Inr (JNull, JNull)"

text \<open>What the dot of a pattern accepts.\<close>

definition no_newline :: "char \<Rightarrow> bool" where
  "no_newline x = (x \<noteq> CHR 0x0A \<and> x \<noteq> CHR 0x0D)"

text \<open>
  The string \<open>s\<close> is \<open>p\<close>, then the artist-like text \<open>a\<close>, one white space character,
  and the track-like text \<open>t\<close> between double quotes, then anything; \<open>a\<close> and \<open>t\<close> are
  not empty and have no line terminator.
\<close>

definition quoted_parts :: "string \<Rightarrow> string \<Rightarrow> string \<Rightarrow> string \<Rightarrow> bool" where
  "quoted_parts s p a t =
     (\<exists>w q. s = p @ a @ w # dq # t @ dq # q \<and> is_space w
        \<and> a \<noteq> [] \<and> t \<noteq> [] \<and> (\<forall>x\<in>set a. no_newline x) \<and> (\<forall>x\<in>set t. no_newline x))"

text \<open>
  Among all such parts of \<open>s\<close>, those that start first, then have the shortest
  artist, then the shortest track.
\<close>

definition first_quoted_parts :: "string \<Rightarrow> string \<Rightarrow> string \<Rightarrow> string \<Rightarrow> bool" where
  "first_quoted_parts s p a t =
     (quoted_parts s p a t
      \<and> (\<forall>p' a' t'. quoted_parts s p' a' t' \<longrightarrow>
            length p \<le> length p'
            \<and> (length p' = length p \<longrightarrow>
                 length a \<le> length a' \<and> (length a' = length a \<longrightarrow> length t \<le> length t'))))"

text \<open>
  For the proofs: the ways to split a string into a non-empty prefix of characters of
  a class and the rest, shortest prefix first; and the pattern that follows the first
  group of \<open>quoted_title\<close>.
\<close>

fun splits :: "(char \<Rightarrow> bool) \<Rightarrow> string \<Rightarrow> (string \<times> string) list" where
  "splits p [] = []"
| "splits p (x # xs) =
     (if p x then ([x], xs) # map (\<lambda>mq. (x # fst mq, snd mq)) (splits p xs) else [])"

definition quoted_rest :: regex where
  "quoted_rest = Seq ws (Seq (chr dq) (Seq (Group 2 (LazyPlus (Atom no_newline))) (Seq (chr dq) Empty)))"

text \<open>
  Two steps of the matcher, for the proofs: the state after the input up to \<open>q\<close> has
  been consumed, and the state after a group has captured \<open>m\<close>.
\<close>

definition consume :: "mstate \<Rightarrow> string \<Rightarrow> mstate" where
  "consume st q = st\<lparr>at_start := False, remaining := q\<rparr>"

definition capture_as :: "nat \<Rightarrow> string \<Rightarrow> mstate \<Rightarrow> mstate" where
  "capture_as n m st = st\<lparr>captures := (n, m) # captures st\<rparr>"

section \<open>Theorems\<close>

lemma attach_count_Cons:
  "attach_count (acts # tr) = length (filter (\<lambda>a. a = AttachTimeupdate) acts) + attach_count tr"
  by (simp add: attach_count_def)

lemma run_observer_present_no_attach:
  "attach_count (fst (run_observer True evs)) = 0"
proof (induction evs)
  case Nil
  show ?case by (simp add: attach_count_def)
next
  case (Cons ev evs)
  then show ?case
    by (cases ev) (auto simp: observer_callback_def attach_count_Cons split: prod.splits)
qed

lemma run_observer_attach_le_1:
  "attach_count (fst (run_observer present evs)) \<le> 1"
proof (induction evs arbitrary: present)
  case Nil
  show ?case by (simp add: attach_count_def)
next
  case (Cons ev evs)
  show ?case
  proof (cases "ev \<or> present")
    case True
    then have "observer_callback ev present = (if ev then [StateChanged] else [], present)"
      by (auto simp: observer_callback_def)
    then show ?thesis
      using Cons.IH [of present]
      by (auto simp: attach_count_Cons split: prod.splits)
  next
    case False
    then have "observer_callback ev present = ([AttachTimeupdate], True)"
      by (simp add: observer_callback_def)
    then show ?thesis
      using run_observer_present_no_attach [of evs]
      by (auto simp: attach_count_Cons split: prod.splits)
  qed
qed

text \<open>
  C1. Started with no hook attached and fed the mutations on-surface, on-surface,
  off-surface, on-surface, the observer attaches the \<open>timeupdate\<close> listener exactly once,
  on the first mutation, signals \<open>onStateChanged\<close> exactly once, on the off-surface
  mutation, and does nothing on the second and the fourth mutation. Whatever the
  mutations and the starting flag, the listener is attached at most once, and an
  on-surface mutation with the hook already attached does nothing and keeps the flag.
\<close>

theorem detector_sequence_single_attach:
  "run_observer False [on_surface, on_surface, off_surface, on_surface]
     = ([[AttachTimeupdate], [], [StateChanged], []], True)
   \<and> observer_callback on_surface True = ([], True)
   \<and> attach_count (fst (run_observer present evs)) \<le> 1"
proof -
  have "run_observer False [on_surface, on_surface, off_surface, on_surface]
     = ([[AttachTimeupdate], [], [StateChanged], []], True)"
    by (simp add: observer_callback_def)
  moreover have "observer_callback on_surface True = ([], True)"
    by (simp add: observer_callback_def)
  ultimately show ?thesis
    using run_observer_attach_le_1 [of present evs] by simp
qed

text \<open>
  C6. When the query for the player element finds nothing, both versions of
  \<open>isPlayerOffscreen\<close> answer false, so the observer takes its on-surface branch.
\<close>

theorem missing_anchor_is_on_surface:
  "isPlayerOffscreen_default None = False
   \<and> isPlayerOffscreen_material None = False
   \<and> observer_callback (isPlayerOffscreen_default None) present = observer_callback on_surface present
   \<and> observer_callback (isPlayerOffscreen_material None) present = observer_callback on_surface present"
  by (simp add: isPlayerOffscreen_default_def isPlayerOffscreen_material_def)






lemma getTrimFilter_merged: "getTrimFilter = Inr trim_merged"
proof -
  have "(\<lambda>field. case field of Artist \<Rightarrow> [EFunction trim] | Track \<Rightarrow> [EFunction trim]
                              | Album \<Rightarrow> [EFunction trim]) = trim_merged"
    unfolding trim_merged_def by (rule ext) (simp split: field.splits)
  then show ?thesis
    by (simp add: getTrimFilter_def MetadataFilter_def createMergedFilters_def merge_field_def
        createFilters_def get_prop_def)
qed

lemma getYoutubeFilter_merged: "getYoutubeFilter = Inr youtube_merged"
proof -
  have "(\<lambda>field. case field of Artist \<Rightarrow> [EFunction trim]
                              | Track \<Rightarrow> [EFunction youtube, EFunction trim]
                              | Album \<Rightarrow> [EFunction trim]) = youtube_merged"
    unfolding youtube_merged_def by (rule ext) (simp split: field.splits)
  then show ?thesis
    by (simp add: getYoutubeFilter_def MetadataFilter_def createMergedFilters_def merge_field_def
        createFilters_def get_prop_def)
qed

lemma getRemasteredFilter_merged: "getRemasteredFilter = Inr remastered_merged"
proof -
  have "(\<lambda>field. case field of Artist \<Rightarrow> [EFunction trim]
                              | Track \<Rightarrow> [EFunction removeRemastered, EFunction trim]
                              | Album \<Rightarrow> [EFunction removeRemastered, EFunction trim]) = remastered_merged"
    unfolding remastered_merged_def by (rule ext) (simp split: field.splits)
  then show ?thesis
    by (simp add: getRemasteredFilter_def MetadataFilter_def createMergedFilters_def merge_field_def
        createFilters_def get_prop_def)
qed

text \<open>
  C3. For every merged filter set and every field, filtering \<open>null\<close> returns \<open>null\<close> and
  filtering the empty string returns the empty string, and no filter function is called.
\<close>

theorem no_data_is_returned_unfiltered:
  "applyFilter m field JNull = ([], Inr JNull) \<and> applyFilter m field (JStr []) = ([], Inr (JStr []))"
  by (cases field) (simp_all add: filterArtist_def filterTrack_def filterAlbum_def filterField_def)

lemma forEach_filter_calls:
  "forEach_filter fs calls v =
     (calls @ fst (forEach_filter fs [] v), snd (forEach_filter fs [] v))"
proof (induction fs arbitrary: calls v)
  case Nil
  show ?case by simp
next
  case (Cons f fs)
  show ?case
  proof (cases f)
    case (EFunction g)
    show ?thesis
    proof (cases "g v")
      case (Inl e)
      with EFunction show ?thesis by simp
    next
      case (Inr t)
      with EFunction Cons [of "calls @ [v]" t] Cons [of "[v]" t] show ?thesis by simp
    qed
  qed simp_all
qed

lemma forEach_filter_append:
  "forEach_filter (pre @ post) calls v =
     (case forEach_filter pre calls v of
        (cs, Inl e) \<Rightarrow> (cs, Inl e)
      | (cs, Inr t) \<Rightarrow> forEach_filter post cs t)"
proof (induction pre arbitrary: calls v)
  case Nil
  show ?case by simp
next
  case (Cons f pre)
  show ?case
  proof (cases f)
    case (EFunction g)
    then show ?thesis using Cons by (cases "g v") simp_all
  qed simp_all
qed

text \<open>
  C8, as amended. When the filters before a throwing filter run without a fault, the
  loop stops at the throwing filter and the exception is the result of \<open>filterField\<close>:
  the remaining filters are not called and no partially filtered string is returned.
\<close>

theorem fault_propagates:
  assumes "v \<noteq> JNull" and "v \<noteq> JStr []"
    and "filterField v pre = (cs, Inr t)" and "f t = Inl e"
  shows "filterField v (pre @ EFunction f # post) = (cs @ [t], Inl e)"
  using assms by (simp add: filterField_def forEach_filter_append)

text \<open>
  C8 as stated fails: with the filters trim, a throwing filter, trim, the input
  \<open>" a "\<close> is trimmed and then the exception reaches the caller; the partially
  filtered string \<open>"a"\<close> is not returned.
\<close>

theorem fault_propagates_counterexample:
  "filterField (JStr '' a '') [EFunction trim, EFunction throwing, EFunction trim]
     = ([JStr '' a '', JStr ''a''], Inl TypeError)
   \<and> snd (filterField (JStr '' a '') [EFunction trim, EFunction throwing, EFunction trim])
     \<noteq> Inr (JStr ''a'')"
  by (simp add: filterField_def str_trim_def is_space_def)

theorem fault_propagates_witness:
  "JStr '' a '' \<noteq> JNull \<and> JStr '' a '' \<noteq> JStr [] 
   \<and> filterField (JStr '' a '') [EFunction trim] = ([JStr '' a ''], Inr (JStr ''a''))
   \<and> throwing (JStr ''a'') = Inl TypeError
   \<and> filterField (JStr '' a '') ([EFunction trim] @ EFunction throwing # [EFunction trim])
       = ([JStr '' a ''] @ [JStr ''a''], Inl TypeError)"
proof -
  have 1: "filterField (JStr '' a '') [EFunction trim] = ([JStr '' a ''], Inr (JStr ''a''))"
    by (simp add: filterField_def str_trim_def is_space_def)
  have 2: "throwing (JStr ''a'') = Inl TypeError" by simp
  show ?thesis
    using fault_propagates [of "JStr '' a ''" "[EFunction trim]" "[JStr '' a '']" "JStr ''a''"
        throwing TypeError "[EFunction trim]"] 1
    by simp
qed

lemma dropWhile_rev_dropWhile:
  assumes "ys = [] \<or> \<not> P (hd ys)"
  shows "dropWhile P (rev (dropWhile P (rev ys))) = rev (dropWhile P (rev ys))"
proof (cases ys)
  case Nil
  then show ?thesis by simp
next
  case (Cons y zs)
  with assms have ny: "\<not> P y" by simp
  have "dropWhile P (rev zs @ [y]) = dropWhile P (rev zs) @ [y] \<or> dropWhile P (rev zs @ [y]) = [y]"
    using ny by (simp add: dropWhile_append)
  then show ?thesis using Cons ny by auto
qed

lemma dropWhile_head: "dropWhile P s = [] \<or> \<not> P (hd (dropWhile P s))"
  using hd_dropWhile [of P s] by blast

lemma str_trim_idem: "str_trim (str_trim x) = str_trim x"
  by (simp add: str_trim_def dropWhile_rev_dropWhile [OF dropWhile_head] dropWhile_idem)

lemma applyFilter_filterField: "applyFilter m field v = filterField v (m field)"
  by (cases field) (simp_all add: filterArtist_def filterTrack_def filterAlbum_def)

lemma forEach_trim:
  "\<forall>f\<in>set fs. f = EFunction trim \<Longrightarrow>
     snd (forEach_filter fs calls (JStr s)) = Inr (JStr (if fs = [] then s else str_trim s))"
proof (induction fs arbitrary: calls s)
  case Nil
  show ?case by simp
next
  case (Cons f fs)
  then have f: "f = EFunction trim" and rest: "\<forall>f\<in>set fs. f = EFunction trim" by simp_all
  show ?case
    using Cons.IH [OF rest, of "calls @ [JStr s]" "str_trim s"]
    by (simp add: f str_trim_idem)
qed

lemma filterField_trim_string:
  assumes "\<forall>f\<in>set fs. f = EFunction trim"
  shows "snd (filterField (JStr s) fs) = Inr (JStr (if fs = [] then s else str_trim s))"
  using forEach_trim [OF assms, of "[]" s]
  by (auto simp: filterField_def str_trim_def)

lemma filterField_trim_twice:
  assumes "\<forall>f\<in>set fs. f = EFunction trim" and "snd (filterField v fs) = Inr t"
  shows "snd (filterField t fs) = Inr t"
proof (cases v)
  case (JStr s)
  with assms filterField_trim_string [OF assms(1), of s]
  have t: "t = JStr (if fs = [] then s else str_trim s)" by simp
  show ?thesis
    using filterField_trim_string [OF assms(1), of "if fs = [] then s else str_trim s"]
    by (simp add: t str_trim_idem)
next
  case JNull
  with assms show ?thesis by (simp add: filterField_def)
next
  case JUndefined
  with assms show ?thesis by (cases fs) (auto simp: filterField_def)
next
  case (JBool b)
  with assms show ?thesis by (cases fs) (auto simp: filterField_def)
next
  case (JNum x)
  with assms show ?thesis by (cases fs) (auto simp: filterField_def)
next
  case JNaN
  with assms show ?thesis by (cases fs) (auto simp: filterField_def)
qed

text \<open>
  C9. \<open>trim\<close> is idempotent, and so is a field filter whose filters are all \<open>trim\<close>:
  a string is filtered to a string that filtering leaves unchanged, and whenever
  filtering any value returns, filtering the returned value returns it again.
\<close>

theorem trim_filters_idempotent:
  "str_trim (str_trim x) = str_trim x
   \<and> ((\<forall>f\<in>set (m field). f = EFunction trim) \<longrightarrow>
        (\<exists>t. snd (applyFilter m field (JStr x)) = Inr (JStr t)
             \<and> snd (applyFilter m field (JStr t)) = Inr (JStr t))
        \<and> (\<forall>v t. snd (applyFilter m field v) = Inr t \<longrightarrow> snd (applyFilter m field t) = Inr t))"
proof -
  have "\<exists>t. snd (filterField (JStr x) fs) = Inr (JStr t) \<and> snd (filterField (JStr t) fs) = Inr (JStr t)"
    if "\<forall>f\<in>set fs. f = EFunction trim" for fs
    using filterField_trim_string [OF that, of x]
      filterField_trim_twice [OF that, of "JStr x"]
    by simp
  then show ?thesis
    using filterField_trim_twice [of "m field"]
    by (simp add: applyFilter_filterField str_trim_idem)
qed

theorem trim_filters_idempotent_witness:
  "str_trim (str_trim ''  Abba '') = str_trim ''  Abba ''
   \<and> (\<exists>m. getTrimFilter = Inr m
        \<and> m Artist = [EFunction trim]
        \<and> snd (applyFilter m Artist (JStr ''  Abba '')) = Inr (JStr ''Abba'')
        \<and> snd (applyFilter m Artist (JStr ''Abba'')) = Inr (JStr ''Abba''))"
proof -
  have g: "trim_merged Artist = [EFunction trim]"
    by (simp add: trim_merged_def)
  then have h: "\<forall>f\<in>set (trim_merged Artist). f = EFunction trim"
    by simp
  have e: "snd (applyFilter trim_merged Artist (JStr ''  Abba '')) = Inr (JStr ''Abba'')"
    by (simp add: g filterArtist_def filterField_def str_trim_def is_space_def)
  have "str_trim (str_trim ''  Abba '') = str_trim ''  Abba ''
    \<and> snd (applyFilter trim_merged Artist (JStr ''  Abba '')) = Inr (JStr ''Abba'')
    \<and> snd (applyFilter trim_merged Artist (JStr ''Abba'')) = Inr (JStr ''Abba'')"
    using trim_filters_idempotent [of "''  Abba ''" trim_merged Artist] h e
    by auto
  with g getTrimFilter_merged show ?thesis by blast
qed

lemma last_outcome_Cons:
  "cs \<noteq> [] \<Longrightarrow> last_outcome (g # fs) (v # cs) = last_outcome fs cs"
  by (cases cs) (auto simp: last_outcome_def split: entry.splits)

lemma last_outcome_single: "last_outcome (EFunction f # fs) [v] = Some (f v)"
  by (simp add: last_outcome_def)

lemma last_outcome_Nil [simp]: "last_outcome fs [] = None"
  by (simp add: last_outcome_def)

lemma chain_outcome_Cons:
  "cs \<noteq> [] \<Longrightarrow> chain_outcome (g # fs) v (v # cs) res = chain_outcome fs t cs res"
  by (cases res) (simp_all add: chain_outcome_def last_outcome_Cons)

lemma chain_of_calls_Cons:
  assumes "chain_of_calls fs t cs" and "g v = Inr t"
  shows "chain_of_calls (EFunction g # fs) v (v # cs)"
  unfolding chain_of_calls_def
proof (intro conjI allI impI)
  show "length (v # cs) \<le> length (EFunction g # fs)"
    using assms(1) by (simp add: chain_of_calls_def)
  show "hd (v # cs) = v" by simp
next
  fix i assume i: "i < length (v # cs)"
  show "\<exists>f. (EFunction g # fs) ! i = EFunction f
          \<and> (Suc i < length (v # cs) \<longrightarrow> f ((v # cs) ! i) = Inr ((v # cs) ! Suc i))"
  proof (cases i)
    case 0
    have "cs \<noteq> [] \<Longrightarrow> cs ! 0 = t"
      using assms(1) by (simp add: chain_of_calls_def hd_conv_nth)
    with 0 assms(2) show ?thesis by auto
  next
    case (Suc j)
    with i have "j < length cs" by simp
    with assms(1) obtain f where "fs ! j = EFunction f"
      "Suc j < length cs \<longrightarrow> f (cs ! j) = Inr (cs ! Suc j)"
      unfolding chain_of_calls_def by blast
    with Suc show ?thesis by simp
  qed
qed

lemma chain_of_calls_single: "chain_of_calls (EFunction g # fs) v [v]"
  by (simp add: chain_of_calls_def)

lemma chain_of_calls_tail:
  assumes "chain_of_calls (g # fs) v (c # cs)"
  shows "c = v" and "\<exists>f. g = EFunction f \<and> (cs \<noteq> [] \<longrightarrow> f v = Inr (hd cs))"
    and "chain_of_calls fs (hd cs) cs"
proof -
  from assms show c: "c = v" by (simp add: chain_of_calls_def)
  from assms have all: "\<forall>i < length (c # cs). \<exists>f. (g # fs) ! i = EFunction f
             \<and> (Suc i < length (c # cs) \<longrightarrow> f ((c # cs) ! i) = Inr ((c # cs) ! Suc i))"
    unfolding chain_of_calls_def by blast
  from all [rule_format, of 0] c
  show "\<exists>f. g = EFunction f \<and> (cs \<noteq> [] \<longrightarrow> f v = Inr (hd cs))"
    by (auto simp: hd_conv_nth)
  show "chain_of_calls fs (hd cs) cs"
    unfolding chain_of_calls_def
  proof (intro conjI allI impI)
    from assms show "length cs \<le> length fs" by (simp add: chain_of_calls_def)
    show "hd cs = hd cs" ..
  next
    fix i assume "i < length cs"
    then have "Suc i < length (c # cs)" by simp
    from all [rule_format, OF this]
    show "\<exists>f. fs ! i = EFunction f \<and> (Suc i < length cs \<longrightarrow> f (cs ! i) = Inr (cs ! Suc i))"
      by simp
  qed
qed

lemma forEach_filter_satisfies:
  "chain_of_calls fs v (fst (forEach_filter fs [] v))
   \<and> chain_outcome fs v (fst (forEach_filter fs [] v)) (snd (forEach_filter fs [] v))"
proof (induction fs arbitrary: v)
  case Nil
  show ?case by (simp add: chain_of_calls_def chain_outcome_def)
next
  case (Cons g fs)
  show ?case
  proof (cases g)
    case (EFunction f)
    show ?thesis
    proof (cases "f v")
      case (Inl e)
      with EFunction show ?thesis
        by (simp add: chain_of_calls_single chain_outcome_def last_outcome_single)
    next
      case (Inr t)
      define cs where "cs = fst (forEach_filter fs [] t)"
      define res where "res = snd (forEach_filter fs [] t)"
      have eq: "forEach_filter (g # fs) [] v = (v # cs, res)"
        using forEach_filter_calls [of fs "[v]" t] by (simp add: EFunction Inr cs_def res_def)
      from Cons [of t] have IH: "chain_of_calls fs t cs" "chain_outcome fs t cs res"
        by (simp_all add: cs_def res_def)
      have chain: "chain_of_calls (g # fs) v (v # cs)"
        unfolding EFunction using chain_of_calls_Cons [of fs t cs f v] IH(1) Inr by blast
      have "chain_outcome (g # fs) v (v # cs) res"
      proof (cases "cs = []")
        case False
        with IH(2) show ?thesis by (simp add: chain_outcome_Cons [of cs g fs v res t])
      next
        case True
        with IH(2) show ?thesis
          unfolding EFunction
          by (cases res) (auto simp: chain_outcome_def last_outcome_single Inr)
      qed
      with chain show ?thesis by (simp add: eq)
    qed
  qed (simp_all add: chain_of_calls_def chain_outcome_def)
qed

lemma forEach_filter_determined:
  "chain_of_calls fs v cs \<Longrightarrow> chain_outcome fs v cs res \<Longrightarrow> forEach_filter fs [] v = (cs, res)"
proof (induction fs arbitrary: v cs)
  case Nil
  then have "cs = []" by (simp add: chain_of_calls_def)
  with Nil show ?case by (cases res) (simp_all add: chain_outcome_def)
next
  case (Cons g fs)
  show ?case
  proof (cases cs)
    case Nil
    with Cons.prems(2) have "(\<forall>f. g \<noteq> EFunction f) \<and> res = Inl TypeError"
      by (cases res) (simp_all add: chain_outcome_def)
    with Nil show ?thesis by (cases g) simp_all
  next
    case (Cons c cs')
    from chain_of_calls_tail [OF Cons.prems(1) [unfolded Cons]]
    obtain f where c: "c = v" and g: "g = EFunction f" and f: "cs' \<noteq> [] \<longrightarrow> f v = Inr (hd cs')"
      and tail: "chain_of_calls fs (hd cs') cs'"
      by blast
    show ?thesis
    proof (cases "cs' = []")
      case False
      with f have fv: "f v = Inr (hd cs')" by simp
      from Cons.prems(2) False have "chain_outcome fs (hd cs') cs' res"
        by (simp add: Cons c chain_outcome_Cons [of cs' g fs v res "hd cs'"])
      from Cons.IH [OF tail this] have "forEach_filter fs [] (hd cs') = (cs', res)" .
      then show ?thesis
        using forEach_filter_calls [of fs "[v]" "hd cs'"]
        by (simp add: g fv Cons c)
    next
      case True
      with Cons.prems(2) have out: "chain_outcome (EFunction f # fs) v [v] res"
        by (simp add: Cons c g)
      show ?thesis
      proof (cases res)
        case (Inr r)
        with out have "fs = []" "f v = Inr r"
          by (simp_all add: chain_outcome_def last_outcome_single)
        then show ?thesis by (simp add: g Cons c True Inr)
      next
        case (Inl e)
        with out consider "f v = Inl e"
          | y where "fs \<noteq> []" "\<forall>h. fs ! 0 \<noteq> EFunction h" "e = TypeError" "f v = Inr y"
          by (auto simp: chain_outcome_def last_outcome_single)
        then show ?thesis
        proof cases
          case 1
          then show ?thesis by (simp add: g Cons c True Inl)
        next
          case 2
          then obtain h fs' where fs: "fs = h # fs'" by (cases fs) auto
          with 2 have "\<forall>k. h \<noteq> EFunction k" by simp
          then have "forEach_filter (h # fs') [v] y = ([v], Inl TypeError)"
            by (cases h) simp_all
          with 2 show ?thesis by (simp add: g Cons c True Inl fs)
        qed
      qed
    qed
  qed
qed

lemma filterField_characterised:
  assumes "v \<noteq> JNull" and "v \<noteq> JStr []"
  shows "filterField v fs = (cs, res) \<longleftrightarrow> chain_of_calls fs v cs \<and> chain_outcome fs v cs res"
proof
  assume "filterField v fs = (cs, res)"
  with assms forEach_filter_satisfies [of fs v]
  show "chain_of_calls fs v cs \<and> chain_outcome fs v cs res"
    by (simp add: filterField_def)
next
  assume "chain_of_calls fs v cs \<and> chain_outcome fs v cs res"
  with assms forEach_filter_determined [of fs v cs res]
  show "filterField v fs = (cs, res)"
    by (simp add: filterField_def)
qed

lemma forEach_filter_strings:
  assumes "\<forall>g\<in>set fs. \<exists>f. g = EFunction f \<and> (\<forall>s. \<exists>s'. f (JStr s) = Inr (JStr s'))"
  shows "length (fst (forEach_filter fs [] (JStr s))) = length fs
         \<and> (\<exists>s'. snd (forEach_filter fs [] (JStr s)) = Inr (JStr s'))"
  using assms
proof (induction fs arbitrary: s)
  case Nil
  show ?case by simp
next
  case (Cons g fs)
  then obtain f where g: "g = EFunction f" and tot: "\<forall>s. \<exists>s'. f (JStr s) = Inr (JStr s')" by auto
  then obtain t where t: "f (JStr s) = Inr (JStr t)" by blast
  from Cons have "length (fst (forEach_filter fs [] (JStr t))) = length fs
      \<and> (\<exists>s'. snd (forEach_filter fs [] (JStr t)) = Inr (JStr s'))"
    by simp
  then show ?case
    using forEach_filter_calls [of fs "[JStr s]" "JStr t"] by (simp add: g t)
qed

lemma trim_returns_string: "\<exists>s'. trim (JStr s) = Inr (JStr s')"
  by simp

text \<open>
  C10. Only \<open>null\<close> and the empty string stop \<open>filterField\<close> short. On every other
  value the filters run as a chain that starts on the value itself, and the calls and
  the result of \<open>filterField\<close> are exactly those of the chain: the first filter is
  called on the value, each filter is called on what the filter before it returned,
  the chain stops only at a call that throws or at an element that is not a function,
  and otherwise every filter is called and the last value is returned. When every
  filter is a function that returns a string on every string, every filter is called
  on a string value. Two trims on \<open>" a "\<close> are called on \<open>" a "\<close> and \<open>"a"\<close>; \<open>undefined\<close>
  is passed to \<open>trim\<close>, which throws, under each field of the trim preset.
\<close>

theorem undefined_reaches_filters:
  "(v \<noteq> JNull \<and> v \<noteq> JStr [] \<longrightarrow>
       chain_of_calls fs v (fst (filterField v fs))
       \<and> (\<forall>f rest. fs = EFunction f # rest \<longrightarrow> fst (filterField v fs) \<noteq> [])
       \<and> (\<forall>r. snd (filterField v fs) = Inr r \<longrightarrow> length (fst (filterField v fs)) = length fs)
       \<and> (\<forall>cs res. filterField v fs = (cs, res)
              \<longleftrightarrow> chain_of_calls fs v cs \<and> chain_outcome fs v cs res))
   \<and> (s \<noteq> [] \<and> (\<forall>g\<in>set fs. \<exists>f. g = EFunction f \<and> (\<forall>s. \<exists>s'. f (JStr s) = Inr (JStr s')))
        \<longrightarrow> length (fst (filterField (JStr s) fs)) = length fs
          \<and> (\<exists>s'. snd (filterField (JStr s) fs) = Inr (JStr s')))
   \<and> filterField (JStr '' a '') [EFunction trim, EFunction trim]
        = ([JStr '' a '', JStr ''a''], Inr (JStr ''a''))
   \<and> filterField JUndefined [EFunction trim] = ([JUndefined], Inl TypeError)
   \<and> (\<exists>m. getTrimFilter = Inr m
         \<and> applyFilter m field JUndefined = ([JUndefined], Inl TypeError))"
proof -
  have "applyFilter trim_merged field JUndefined = ([JUndefined], Inl TypeError)"
    by (cases field)
       (simp_all add: trim_merged_def filterArtist_def filterTrack_def filterAlbum_def filterField_def)
  with getTrimFilter_merged
  have preset: "\<exists>m. getTrimFilter = Inr m
         \<and> applyFilter m field JUndefined = ([JUndefined], Inl TypeError)"
    by blast
  have undef: "filterField JUndefined [EFunction trim] = ([JUndefined], Inl TypeError)"
    by (simp add: filterField_def)
  have two: "filterField (JStr '' a '') [EFunction trim, EFunction trim]
        = ([JStr '' a '', JStr ''a''], Inr (JStr ''a''))"
    by (simp add: filterField_def str_trim_def is_space_def)
  have strings: "length (fst (filterField (JStr s) fs)) = length fs
          \<and> (\<exists>s'. snd (filterField (JStr s) fs) = Inr (JStr s'))"
    if "s \<noteq> []" "\<forall>g\<in>set fs. \<exists>f. g = EFunction f \<and> (\<forall>s. \<exists>s'. f (JStr s) = Inr (JStr s'))"
    using forEach_filter_strings [OF that(2), of s] that(1) by (simp add: filterField_def)
  have general: "chain_of_calls fs v (fst (filterField v fs))
       \<and> (\<forall>f rest. fs = EFunction f # rest \<longrightarrow> fst (filterField v fs) \<noteq> [])
       \<and> (\<forall>r. snd (filterField v fs) = Inr r \<longrightarrow> length (fst (filterField v fs)) = length fs)
       \<and> (\<forall>cs res. filterField v fs = (cs, res)
              \<longleftrightarrow> chain_of_calls fs v cs \<and> chain_outcome fs v cs res)"
    if v: "v \<noteq> JNull" "v \<noteq> JStr []"
  proof -
    have eq: "filterField v fs = forEach_filter fs [] v"
      using v by (simp add: filterField_def)
    have sat: "chain_of_calls fs v (fst (filterField v fs))"
      "chain_outcome fs v (fst (filterField v fs)) (snd (filterField v fs))"
      using forEach_filter_satisfies [of fs v] by (simp_all add: eq)
    have first: "fst (filterField v fs) \<noteq> []" if "fs = EFunction f # rest" for f rest
    proof -
      from v have "filterField v (EFunction f # rest) = forEach_filter (EFunction f # rest) [] v"
        by (simp add: filterField_def)
      then show ?thesis
        by (cases "f v") (simp_all add: that forEach_filter_calls [of rest "[v]"])
    qed
    have all: "length (fst (filterField v fs)) = length fs" if "snd (filterField v fs) = Inr r" for r
      using sat(2) that by (simp add: chain_outcome_def)
    from sat(1) first all filterField_characterised [OF v, of fs] show ?thesis
      by blast
  qed
  from general strings two undef preset show ?thesis
    by blast
qed

theorem undefined_reaches_filters_witness:
  "JUndefined \<noteq> JNull \<and> JUndefined \<noteq> JStr []
   \<and> fst (filterField JUndefined [EFunction trim]) \<noteq> []
   \<and> filterField JUndefined [EFunction trim] = ([JUndefined], Inl TypeError)
   \<and> '' a '' \<noteq> []
   \<and> length (fst (filterField (JStr '' a '') [EFunction trim, EFunction trim])) = 2"
proof -
  have 1: "JUndefined \<noteq> JNull \<and> JUndefined \<noteq> JStr []" by simp
  have 2: "'' a '' \<noteq> []" by simp
  have 3: "\<forall>g\<in>set [EFunction trim, EFunction trim].
             \<exists>f. g = EFunction f \<and> (\<forall>s. \<exists>s'. f (JStr s) = Inr (JStr s'))"
    using trim_returns_string by auto
  from undefined_reaches_filters [of JUndefined "[EFunction trim]" "'' a ''"] 1
  have a: "fst (filterField JUndefined [EFunction trim]) \<noteq> []"
    "filterField JUndefined [EFunction trim] = ([JUndefined], Inl TypeError)"
    by blast+
  from undefined_reaches_filters [of "JStr '' a ''" "[EFunction trim, EFunction trim]" "'' a ''"] 2 3
  have "length (fst (filterField (JStr '' a '') [EFunction trim, EFunction trim]))
          = length [EFunction trim, EFunction trim]"
    by blast
  with a 1 2 show ?thesis by simp
qed


lemma matches_Atom_iff:
  "st' \<in> set (matches (Atom p) st) \<longleftrightarrow>
     (\<exists>x q. remaining st = x # q \<and> p x \<and> st' = consume st q)"
  by (cases "remaining st") (auto simp: matches.simps consume_def)

lemma matches_Seq_iff:
  "st'' \<in> set (matches (Seq r1 r2) st) \<longleftrightarrow>
     (\<exists>st' \<in> set (matches r1 st). st'' \<in> set (matches r2 st'))"
  by (auto simp: matches.simps)

lemma matches_Empty_iff: "st' \<in> set (matches Empty st) \<longleftrightarrow> st' = st"
  by (auto simp: matches.simps)

lemma matches_Group_iff:
  "st'' \<in> set (matches (Group n r) st) \<longleftrightarrow>
     (\<exists>st' \<in> set (matches r st).
        st'' = st'\<lparr>captures := (n, take (length (remaining st) - length (remaining st')) (remaining st))
                                  # captures st'\<rparr>)"
  by (auto simp: matches.simps)

lemma matches_LazyStar_Atom:
  "matches (LazyStar (Atom p)) st =
     st # (case remaining st of
             [] \<Rightarrow> []
           | x # q \<Rightarrow> if p x then matches (LazyStar (Atom p)) (consume st q) else [])"
  by (cases "remaining st") (auto simp: matches.simps shorter_def consume_def)

lemma consume_consume [simp]: "consume (consume st q) q' = consume st q'"
  by (simp add: consume_def)

lemma remaining_consume [simp]: "remaining (consume st q) = q"
  by (simp add: consume_def)

lemma captures_consume [simp]: "captures (consume st q) = captures st"
  by (simp add: consume_def)

lemma matches_LazyStar_Atom_iff:
  "st' \<in> set (matches (LazyStar (Atom p)) st) \<longleftrightarrow>
     st' = st \<or> (\<exists>m q. m \<noteq> [] \<and> remaining st = m @ q \<and> (\<forall>x\<in>set m. p x) \<and> st' = consume st q)"
proof (induction "remaining st" arbitrary: st)
  case Nil
  then show ?case
    by (subst matches_LazyStar_Atom) (auto simp flip: Nil)
next
  case (Cons x xs)
  have IH: "st' \<in> set (matches (LazyStar (Atom p)) (consume st xs)) \<longleftrightarrow>
     st' = consume st xs \<or> (\<exists>m q. m \<noteq> [] \<and> xs = m @ q \<and> (\<forall>x\<in>set m. p x) \<and> st' = consume st q)"
    using Cons(1) [of "consume st xs"] by simp
  show ?case
  proof (cases "p x")
    case False
    have "\<not> (\<exists>m q. m \<noteq> [] \<and> x # xs = m @ q \<and> (\<forall>x\<in>set m. p x))"
    proof
      assume "\<exists>m q. m \<noteq> [] \<and> x # xs = m @ q \<and> (\<forall>x\<in>set m. p x)"
      then obtain m q where "m \<noteq> []" "x # xs = m @ q" "\<forall>x\<in>set m. p x" by blast
      then have "p x" by (cases m) auto
      with False show False ..
    qed
    then show ?thesis
      using False Cons(2) [symmetric]
      by (subst matches_LazyStar_Atom) auto
  next
    case True
    have "(\<exists>m q. m \<noteq> [] \<and> x # xs = m @ q \<and> (\<forall>x\<in>set m. p x) \<and> st' = consume st q)
          \<longleftrightarrow> st' = consume st xs \<or> (\<exists>m q. m \<noteq> [] \<and> xs = m @ q \<and> (\<forall>x\<in>set m. p x) \<and> st' = consume st q)"
      (is "?L \<longleftrightarrow> ?R")
    proof
      assume ?L
      then obtain m q where m: "m \<noteq> []" "x # xs = m @ q" "\<forall>x\<in>set m. p x" "st' = consume st q"
        by blast
      then obtain m' where m': "m = x # m'" "xs = m' @ q" by (cases m) auto
      show ?R
      proof (cases "m' = []")
        case True
        with m m' show ?thesis by simp
      next
        case False
        with m m' show ?thesis by auto
      qed
    next
      assume ?R
      then show ?L
      proof
        assume "st' = consume st xs"
        then have "[x] \<noteq> [] \<and> x # xs = [x] @ xs \<and> (\<forall>y\<in>set [x]. p y) \<and> st' = consume st xs"
          using True by simp
        then show ?L by blast
      next
        assume "\<exists>m q. m \<noteq> [] \<and> xs = m @ q \<and> (\<forall>x\<in>set m. p x) \<and> st' = consume st q"
        then obtain m q where "m \<noteq> []" "xs = m @ q" "\<forall>x\<in>set m. p x" "st' = consume st q" by blast
        then have "x # m \<noteq> [] \<and> x # xs = (x # m) @ q \<and> (\<forall>y\<in>set (x # m). p y) \<and> st' = consume st q"
          using True by simp
        then show ?L by blast
      qed
    qed
    then show ?thesis
      using True Cons(2) [symmetric] IH
      by (subst matches_LazyStar_Atom) auto
  qed
qed

lemma matches_LazyPlus_Atom_iff:
  "st' \<in> set (matches (LazyPlus (Atom p)) st) \<longleftrightarrow>
     (\<exists>m q. m \<noteq> [] \<and> remaining st = m @ q \<and> (\<forall>x\<in>set m. p x) \<and> st' = consume st q)"
  (is "?L \<longleftrightarrow> ?R")
proof
  assume ?L
  then obtain x q0 where x: "remaining st = x # q0" "p x"
    and st': "st' \<in> set (matches (LazyStar (Atom p)) (consume st q0))"
    by (auto simp: LazyPlus_def matches_Seq_iff matches_Atom_iff)
  from st' consider "st' = consume st q0"
    | m q where "m \<noteq> []" "q0 = m @ q" "\<forall>x\<in>set m. p x" "st' = consume st q"
    by (auto simp: matches_LazyStar_Atom_iff)
  then show ?R
  proof cases
    case 1
    with x have "[x] \<noteq> [] \<and> remaining st = [x] @ q0 \<and> (\<forall>y\<in>set [x]. p y) \<and> st' = consume st q0"
      by simp
    then show ?thesis by blast
  next
    case 2
    with x have "x # m \<noteq> [] \<and> remaining st = (x # m) @ q \<and> (\<forall>y\<in>set (x # m). p y) \<and> st' = consume st q"
      by simp
    then show ?thesis by blast
  qed
next
  assume ?R
  then obtain m q where m: "m \<noteq> []" "remaining st = m @ q" "\<forall>x\<in>set m. p x" "st' = consume st q"
    by blast
  then obtain x m' where m': "m = x # m'" by (cases m) auto
  with m have first: "consume st (m' @ q) \<in> set (matches (Atom p) st)"
    by (auto simp: matches_Atom_iff)
  have "st' \<in> set (matches (LazyStar (Atom p)) (consume st (m' @ q)))"
  proof (cases "m' = []")
    case True
    with m show ?thesis by (simp add: matches_LazyStar_Atom_iff)
  next
    case False
    with m m' have "m' \<noteq> [] \<and> remaining (consume st (m' @ q)) = m' @ q \<and> (\<forall>x\<in>set m'. p x)
        \<and> st' = consume (consume st (m' @ q)) q"
      by simp
    then show ?thesis
      unfolding matches_LazyStar_Atom_iff by blast
  qed
  with first show ?L
    unfolding LazyPlus_def matches_Seq_iff by blast
qed

lemma matches_Group_LazyPlus_iff:
  "st' \<in> set (matches (Group n (LazyPlus (Atom p))) st) \<longleftrightarrow>
     (\<exists>m q. m \<noteq> [] \<and> remaining st = m @ q \<and> (\<forall>x\<in>set m. p x)
            \<and> st' = capture_as n m (consume st q))"
  (is "?L \<longleftrightarrow> ?R")
proof
  assume ?L
  then obtain st1 where st1: "st1 \<in> set (matches (LazyPlus (Atom p)) st)"
    and st': "st' = st1\<lparr>captures :=
        (n, take (length (remaining st) - length (remaining st1)) (remaining st)) # captures st1\<rparr>"
    unfolding matches_Group_iff by blast
  from st1 obtain m q where m: "m \<noteq> []" "remaining st = m @ q" "\<forall>x\<in>set m. p x" "st1 = consume st q"
    unfolding matches_LazyPlus_Atom_iff by blast
  with st' have "st' = capture_as n m (consume st q)"
    by (simp add: capture_as_def)
  with m show ?R by blast
next
  assume ?R
  then obtain m q where m: "m \<noteq> []" "remaining st = m @ q" "\<forall>x\<in>set m. p x"
    and st': "st' = capture_as n m (consume st q)"
    by blast
  from m have "consume st q \<in> set (matches (LazyPlus (Atom p)) st)"
    unfolding matches_LazyPlus_Atom_iff by blast
  moreover from m st' have "st' = (consume st q)\<lparr>captures :=
        (n, take (length (remaining st) - length (remaining (consume st q))) (remaining st))
          # captures (consume st q)\<rparr>"
    by (simp add: capture_as_def)
  ultimately show ?L
    unfolding matches_Group_iff by blast
qed

lemma matches_chr_iff:
  "st' \<in> set (matches (chr c) st) \<longleftrightarrow> (\<exists>q. remaining st = c # q \<and> st' = consume st q)"
  by (auto simp: chr_def matches_Atom_iff)

lemma matches_ws_iff:
  "st' \<in> set (matches ws st) \<longleftrightarrow> (\<exists>w q. remaining st = w # q \<and> is_space w \<and> st' = consume st q)"
  by (auto simp: ws_def matches_Atom_iff)

lemma remaining_capture_as [simp]: "remaining (capture_as n m st) = remaining st"
  by (simp add: capture_as_def)

lemma consume_capture_as [simp]: "consume (capture_as n m st) q = capture_as n m (consume st q)"
  by (simp add: capture_as_def consume_def)

lemma matches_quoted_title_iff:
  "st' \<in> set (matches quoted_title st) \<longleftrightarrow>
     (\<exists>a w t q. remaining st = a @ w # dq # t @ dq # q
        \<and> a \<noteq> [] \<and> t \<noteq> [] \<and> (\<forall>x\<in>set a. no_newline x) \<and> (\<forall>x\<in>set t. no_newline x) \<and> is_space w
        \<and> st' = capture_as 2 t (capture_as 1 a (consume st q)))"
  (is "?L \<longleftrightarrow> ?R")
proof -
  have any: "any_char = Atom no_newline"
    by (simp add: any_char_def no_newline_def [abs_def])
  have "?L \<longleftrightarrow>
     (\<exists>st1 st2 st3 st4.
        st1 \<in> set (matches (Group 1 (LazyPlus (Atom no_newline))) st)
      \<and> st2 \<in> set (matches ws st1)
      \<and> st3 \<in> set (matches (chr dq) st2)
      \<and> st4 \<in> set (matches (Group 2 (LazyPlus (Atom no_newline))) st3)
      \<and> st' \<in> set (matches (chr dq) st4))"
    unfolding quoted_title_def seqs_def any
    by (simp add: matches_Seq_iff matches_Empty_iff) blast
  also have "\<dots> \<longleftrightarrow> ?R"
  proof
    assume "\<exists>st1 st2 st3 st4.
        st1 \<in> set (matches (Group 1 (LazyPlus (Atom no_newline))) st)
      \<and> st2 \<in> set (matches ws st1)
      \<and> st3 \<in> set (matches (chr dq) st2)
      \<and> st4 \<in> set (matches (Group 2 (LazyPlus (Atom no_newline))) st3)
      \<and> st' \<in> set (matches (chr dq) st4)"
    then obtain st1 st2 st3 st4 where
      1: "st1 \<in> set (matches (Group 1 (LazyPlus (Atom no_newline))) st)" and
      2: "st2 \<in> set (matches ws st1)" and
      3: "st3 \<in> set (matches (chr dq) st2)" and
      4: "st4 \<in> set (matches (Group 2 (LazyPlus (Atom no_newline))) st3)" and
      5: "st' \<in> set (matches (chr dq) st4)"
      by blast
    from 1 obtain a q1 where a: "a \<noteq> []" "remaining st = a @ q1" "\<forall>x\<in>set a. no_newline x"
      "st1 = capture_as 1 a (consume st q1)"
      unfolding matches_Group_LazyPlus_iff by blast
    from 2 a obtain w q2 where w: "q1 = w # q2" "is_space w" "st2 = capture_as 1 a (consume st q2)"
      unfolding matches_ws_iff by auto
    from 3 w obtain q3 where q3: "q2 = dq # q3" "st3 = capture_as 1 a (consume st q3)"
      unfolding matches_chr_iff by auto
    from 4 q3 obtain t q4 where t: "t \<noteq> []" "q3 = t @ q4" "\<forall>x\<in>set t. no_newline x"
      "st4 = capture_as 2 t (capture_as 1 a (consume st q4))"
      unfolding matches_Group_LazyPlus_iff by auto
    from 5 t obtain q5 where q5: "q4 = dq # q5" "st' = capture_as 2 t (capture_as 1 a (consume st q5))"
      unfolding matches_chr_iff by auto
    from a w q3 t q5 show ?R by auto
  next
    assume ?R
    then obtain a w t q where r: "remaining st = a @ w # dq # t @ dq # q"
      "a \<noteq> []" "t \<noteq> []" "\<forall>x\<in>set a. no_newline x" "\<forall>x\<in>set t. no_newline x" "is_space w"
      "st' = capture_as 2 t (capture_as 1 a (consume st q))"
      by blast
    let ?st1 = "capture_as 1 a (consume st (w # dq # t @ dq # q))"
    let ?st2 = "capture_as 1 a (consume st (dq # t @ dq # q))"
    let ?st3 = "capture_as 1 a (consume st (t @ dq # q))"
    let ?st4 = "capture_as 2 t (capture_as 1 a (consume st (dq # q)))"
    have 1: "?st1 \<in> set (matches (Group 1 (LazyPlus (Atom no_newline))) st)"
      unfolding matches_Group_LazyPlus_iff using r by blast
    have 2: "?st2 \<in> set (matches ws ?st1)"
      unfolding matches_ws_iff using r by simp
    have 3: "?st3 \<in> set (matches (chr dq) ?st2)"
      unfolding matches_chr_iff by simp
    have 4: "?st4 \<in> set (matches (Group 2 (LazyPlus (Atom no_newline))) ?st3)"
      unfolding matches_Group_LazyPlus_iff using r
      by (intro exI [of _ t] exI [of _ "dq # q"]) simp
    have 5: "st' \<in> set (matches (chr dq) ?st4)"
      unfolding matches_chr_iff using r by simp
    from 1 2 3 4 5 show "\<exists>st1 st2 st3 st4.
        st1 \<in> set (matches (Group 1 (LazyPlus (Atom no_newline))) st)
      \<and> st2 \<in> set (matches ws st1)
      \<and> st3 \<in> set (matches (chr dq) st2)
      \<and> st4 \<in> set (matches (Group 2 (LazyPlus (Atom no_newline))) st3)
      \<and> st' \<in> set (matches (chr dq) st4)"
      by blast
  qed
  finally show ?thesis .
qed

lemma regex_search_None:
  "regex_search r b s = None \<Longrightarrow> s = p @ q \<Longrightarrow>
     matches r \<lparr>at_start = (b \<and> p = []), remaining = q, captures = []\<rparr> = []"
proof (induction s arbitrary: b p)
  case Nil
  then show ?case
    by (auto simp: regex_search.simps [of r b "[]"] split: list.splits)
next
  case (Cons x xs)
  from Cons.prems(1) have here: "matches r \<lparr>at_start = b, remaining = x # xs, captures = []\<rparr> = []"
    and later: "regex_search r False xs = None"
    by (auto simp: regex_search.simps [of r b "x # xs"] split: list.splits option.splits)
  show ?case
  proof (cases p)
    case Nil
    with Cons.prems(2) here show ?thesis by simp
  next
    case (Cons y p')
    with Cons.prems(2) have "xs = p' @ q" by simp
    from Cons.IH [OF later this] Cons show ?thesis by simp
  qed
qed

lemma splits_sound:
  "(m, q) \<in> set (splits p s) \<Longrightarrow> s = m @ q \<and> m \<noteq> [] \<and> (\<forall>x\<in>set m. p x)"
  by (induction s arbitrary: m q) (auto split: if_splits)

lemma splits_complete:
  "s = m @ q \<Longrightarrow> m \<noteq> [] \<Longrightarrow> \<forall>x\<in>set m. p x \<Longrightarrow> (m, q) \<in> set (splits p s)"
proof (induction s arbitrary: m)
  case Nil
  then show ?case by simp
next
  case (Cons x xs)
  then obtain m' where m: "m = x # m'" "xs = m' @ q" by (cases m) auto
  show ?case
  proof (cases "m' = []")
    case True
    with m Cons.prems show ?thesis by simp
  next
    case False
    with Cons.IH [of m'] m Cons.prems have "(m', q) \<in> set (splits p xs)" by simp
    with m Cons.prems show ?thesis by force
  qed
qed

lemma splits_sorted:
  "sorted_wrt (\<lambda>x y. length (fst x) < length (fst y)) (splits p s)"
proof (induction s)
  case Nil
  show ?case by simp
next
  case (Cons x xs)
  have "\<forall>mq\<in>set (splits p xs). fst mq \<noteq> []"
    using splits_sound [of _ _ p xs] by force
  with Cons show ?case
    by (auto simp: sorted_wrt_map)
qed

lemma first_in_sorted:
  assumes "concat (map f xs) = y # ys" and "sorted_wrt (\<lambda>a b. k a < (k b :: nat)) xs"
  shows "\<exists>x\<in>set xs. (\<exists>ys'. f x = y # ys') \<and> (\<forall>x'\<in>set xs. k x' < k x \<longrightarrow> f x' = [])"
  using assms
proof (induction xs)
  case Nil
  then show ?case by simp
next
  case (Cons x xs)
  show ?case
  proof (cases "f x")
    case Nil
    with Cons.prems have "concat (map f xs) = y # ys" "sorted_wrt (\<lambda>a b. k a < k b) xs"
      by simp_all
    from Cons.IH [OF this] obtain x0 where x0: "x0 \<in> set xs" "\<exists>ys'. f x0 = y # ys'"
      "\<forall>x'\<in>set xs. k x' < k x0 \<longrightarrow> f x' = []"
      by blast
    with Nil show ?thesis by auto
  next
    case hit: (Cons z zs)
    with Cons.prems(1) have "f x = y # zs" by simp
    moreover have "\<forall>x'\<in>set (x # xs). k x' < k x \<longrightarrow> f x' = []"
      using Cons.prems(2) by auto
    ultimately show ?thesis by auto
  qed
qed

lemma matches_LazyStar_Atom_list:
  "matches (LazyStar (Atom p)) st =
     st # map (\<lambda>mq. consume st (snd mq)) (splits p (remaining st))"
proof (induction "remaining st" arbitrary: st)
  case Nil
  then show ?case
    by (subst matches_LazyStar_Atom) (simp flip: Nil)
next
  case (Cons x xs)
  have IH: "matches (LazyStar (Atom p)) (consume st xs) =
      consume st xs # map (\<lambda>mq. consume st (snd mq)) (splits p xs)"
    using Cons(1) [of "consume st xs"] by simp
  show ?case
    by (subst matches_LazyStar_Atom) (simp flip: Cons(2) add: IH comp_def)
qed

lemma matches_LazyPlus_Atom_list:
  "matches (LazyPlus (Atom p)) st = map (\<lambda>mq. consume st (snd mq)) (splits p (remaining st))"
proof (cases "remaining st")
  case Nil
  then show ?thesis by (simp add: LazyPlus_def matches.simps)
next
  case (Cons x xs)
  show ?thesis
  proof (cases "p x")
    case False
    with Cons show ?thesis by (simp add: LazyPlus_def matches.simps)
  next
    case True
    have "matches (Atom p) st = [consume st xs]"
      using Cons True by (simp add: matches.simps consume_def)
    then show ?thesis
      using Cons True
      by (simp add: LazyPlus_def matches.simps(3) matches_LazyStar_Atom_list comp_def)
  qed
qed

lemma matches_Group_LazyPlus_list:
  "matches (Group n (LazyPlus (Atom p))) st =
     map (\<lambda>mq. capture_as n (fst mq) (consume st (snd mq))) (splits p (remaining st))"
proof -
  have "st'\<lparr>captures := (n, take (length (remaining st) - length (remaining st')) (remaining st))
                            # captures st'\<rparr> = capture_as n (fst mq) (consume st (snd mq))"
    if "mq \<in> set (splits p (remaining st))" "st' = consume st (snd mq)" for mq st'
  proof -
    from that(1) have "remaining st = fst mq @ snd mq"
      using splits_sound [of "fst mq" "snd mq" p "remaining st"] by simp
    then show ?thesis by (simp add: that(2) capture_as_def)
  qed
  then show ?thesis
    by (simp add: matches.simps(8) matches_LazyPlus_Atom_list comp_def cong: map_cong)
qed

lemma matches_Seq_Group_LazyPlus:
  "matches (Seq (Group n (LazyPlus (Atom p))) r) st =
     concat (map (\<lambda>mq. matches r (capture_as n (fst mq) (consume st (snd mq))))
                 (splits p (remaining st)))"
  by (simp add: matches.simps(3) matches_Group_LazyPlus_list comp_def)

lemma matches_Seq_ws:
  "matches (Seq ws r) st =
     (case remaining st of
        [] \<Rightarrow> []
      | w # q \<Rightarrow> if is_space w then matches r (consume st q) else [])"
  by (cases "remaining st") (simp_all add: ws_def matches.simps consume_def)

lemma matches_Seq_chr:
  "matches (Seq (chr c) r) st =
     (case remaining st of
        [] \<Rightarrow> []
      | d # q \<Rightarrow> if d = c then matches r (consume st q) else [])"
  by (cases "remaining st") (simp_all add: chr_def matches.simps consume_def)

lemma quoted_title_unfold:
  "quoted_title = Seq (Group 1 (LazyPlus (Atom no_newline))) quoted_rest"
proof -
  have "any_char = Atom no_newline"
    by (simp add: any_char_def no_newline_def [abs_def])
  then show ?thesis
    by (simp add: quoted_title_def seqs_def quoted_rest_def)
qed

lemma closing_quote:
  "matches (Seq (chr dq) Empty) st =
     (case remaining st of [] \<Rightarrow> [] | d # q \<Rightarrow> if d = dq then [consume st q] else [])"
  by (cases "remaining st") (simp_all add: matches_Seq_chr matches.simps(1))

lemma quoted_rest_matches:
  "matches quoted_rest st =
     (case remaining st of
        w # d # q3 \<Rightarrow>
          if is_space w \<and> d = dq then
            concat (map (\<lambda>mq. matches (Seq (chr dq) Empty) (capture_as 2 (fst mq) (consume st (snd mq))))
                        (splits no_newline q3))
          else []
      | _ \<Rightarrow> [])"
proof (cases "remaining st")
  case Nil
  then show ?thesis by (simp add: quoted_rest_def matches_Seq_ws)
next
  case (Cons w q2)
  show ?thesis
  proof (cases q2)
    case Nil
    with Cons show ?thesis by (simp add: quoted_rest_def matches_Seq_ws matches_Seq_chr)
  next
    case inner: (Cons d q3)
    with Cons show ?thesis
      by (simp add: quoted_rest_def matches_Seq_ws matches_Seq_chr matches_Seq_Group_LazyPlus)
  qed
qed

lemma quoted_rest_nonempty:
  assumes "remaining st = w # dq # t @ dq # q" "is_space w" "t \<noteq> []" "\<forall>x\<in>set t. no_newline x"
  shows "matches quoted_rest st \<noteq> []"
proof -
  have "(t, dq # q) \<in> set (splits no_newline (t @ dq # q))"
    using assms by (intro splits_complete) simp_all
  moreover have "matches (Seq (chr dq) Empty) (capture_as 2 t (consume st (dq # q))) \<noteq> []"
    by (simp add: closing_quote)
  ultimately show ?thesis
    using assms(1,2) by (force simp: quoted_rest_matches)
qed

lemma quoted_rest_first:
  assumes "matches quoted_rest st = st' # others"
  shows "\<exists>w t q. remaining st = w # dq # t @ dq # q \<and> is_space w \<and> t \<noteq> []
           \<and> (\<forall>x\<in>set t. no_newline x) \<and> st' = capture_as 2 t (consume st q)
           \<and> (\<forall>t' q'. remaining st = w # dq # t' @ dq # q' \<and> t' \<noteq> [] \<and> (\<forall>x\<in>set t'. no_newline x)
                  \<longrightarrow> length t \<le> length t')"
proof -
  let ?G = "\<lambda>mq. matches (Seq (chr dq) Empty) (capture_as 2 (fst mq) (consume st (snd mq)))"
  from assms obtain w q3 where rem: "remaining st = w # dq # q3" and w: "is_space w"
    and cat: "concat (map ?G (splits no_newline q3)) = st' # others"
    by (auto simp: quoted_rest_matches split: list.splits if_splits)
  from first_in_sorted [OF cat splits_sorted]
  obtain mq ys' where mq: "mq \<in> set (splits no_newline q3)" "?G mq = st' # ys'"
    and least: "\<forall>mq'\<in>set (splits no_newline q3). length (fst mq') < length (fst mq) \<longrightarrow> ?G mq' = []"
    by blast
  obtain t q4 where tq: "mq = (t, q4)" by (cases mq)
  from mq(1) tq have t: "q3 = t @ q4" "t \<noteq> []" "\<forall>x\<in>set t. no_newline x"
    using splits_sound [of t q4 no_newline q3] by simp_all
  from mq(2) tq obtain q where q: "q4 = dq # q" "st' = capture_as 2 t (consume st q)"
    by (auto simp: closing_quote split: list.splits if_splits)
  have least_t: "length t \<le> length t'"
    if "remaining st = w # dq # t' @ dq # q'" "t' \<noteq> []" "\<forall>x\<in>set t'. no_newline x" for t' q'
  proof -
    from that rem have "q3 = t' @ dq # q'" by simp
    with that have "(t', dq # q') \<in> set (splits no_newline q3)"
      by (intro splits_complete) simp_all
    moreover have "?G (t', dq # q') \<noteq> []" by (simp add: closing_quote)
    ultimately show ?thesis using least tq by force
  qed
  from rem t q have rem': "remaining st = w # dq # t @ dq # q" by simp
  from least_t have "\<forall>t' q'. remaining st = w # dq # t' @ dq # q' \<and> t' \<noteq> [] \<and> (\<forall>x\<in>set t'. no_newline x)
                  \<longrightarrow> length t \<le> length t'"
    by blast
  with rem' w t(2,3) q(2) show ?thesis by blast
qed

lemma quoted_title_first:
  assumes "matches quoted_title st = st' # others"
  shows "\<exists>a w t q. remaining st = a @ w # dq # t @ dq # q
           \<and> a \<noteq> [] \<and> (\<forall>x\<in>set a. no_newline x) \<and> is_space w
           \<and> t \<noteq> [] \<and> (\<forall>x\<in>set t. no_newline x)
           \<and> st' = capture_as 2 t (capture_as 1 a (consume st q))
           \<and> (\<forall>a' w' t' q'. remaining st = a' @ w' # dq # t' @ dq # q'
                  \<and> a' \<noteq> [] \<and> (\<forall>x\<in>set a'. no_newline x) \<and> is_space w'
                  \<and> t' \<noteq> [] \<and> (\<forall>x\<in>set t'. no_newline x)
                  \<longrightarrow> length a \<le> length a' \<and> (length a' = length a \<longrightarrow> length t \<le> length t'))"
proof -
  let ?F = "\<lambda>mq. matches quoted_rest (capture_as 1 (fst mq) (consume st (snd mq)))"
  from assms have cat: "concat (map ?F (splits no_newline (remaining st))) = st' # others"
    by (simp add: quoted_title_unfold matches_Seq_Group_LazyPlus)
  from first_in_sorted [OF cat splits_sorted]
  obtain mq ys' where mq: "mq \<in> set (splits no_newline (remaining st))" "?F mq = st' # ys'"
    and least: "\<forall>mq'\<in>set (splits no_newline (remaining st)).
                  length (fst mq') < length (fst mq) \<longrightarrow> ?F mq' = []"
    by blast
  obtain a q1 where aq: "mq = (a, q1)" by (cases mq)
  from mq(1) aq have a: "remaining st = a @ q1" "a \<noteq> []" "\<forall>x\<in>set a. no_newline x"
    using splits_sound [of a q1 no_newline "remaining st"] by simp_all
  let ?st1 = "capture_as 1 a (consume st q1)"
  from mq(2) aq have "matches quoted_rest ?st1 = st' # ys'" by simp
  from quoted_rest_first [OF this]
  obtain w t q where r: "q1 = w # dq # t @ dq # q" "is_space w" "t \<noteq> []"
    "\<forall>x\<in>set t. no_newline x" "st' = capture_as 2 t (capture_as 1 a (consume st q))"
    and tleast: "\<forall>t' q'. q1 = w # dq # t' @ dq # q' \<and> t' \<noteq> [] \<and> (\<forall>x\<in>set t'. no_newline x)
                  \<longrightarrow> length t \<le> length t'"
    by auto
  have least_a: "length a \<le> length a' \<and> (length a' = length a \<longrightarrow> length t \<le> length t')"
    if d: "remaining st = a' @ w' # dq # t' @ dq # q'" "a' \<noteq> []" "\<forall>x\<in>set a'. no_newline x"
      "is_space w'" "t' \<noteq> []" "\<forall>x\<in>set t'. no_newline x" for a' w' t' q'
  proof
    from d have "(a', w' # dq # t' @ dq # q') \<in> set (splits no_newline (remaining st))"
      by (intro splits_complete) simp_all
    moreover have "?F (a', w' # dq # t' @ dq # q') \<noteq> []"
      using quoted_rest_nonempty [of "capture_as 1 a' (consume st (w' # dq # t' @ dq # q'))" w' t' q'] d
      by simp
    ultimately show "length a \<le> length a'" using least aq by force
    show "length a' = length a \<longrightarrow> length t \<le> length t'"
    proof
      assume "length a' = length a"
      with a(1) d(1) have "a' = a" "q1 = w' # dq # t' @ dq # q'" by auto
      with r(1) have "w' = w" by simp
      with tleast \<open>q1 = w' # dq # t' @ dq # q'\<close> d show "length t \<le> length t'" by blast
    qed
  qed
  from a(1) r(1) have rem': "remaining st = a @ w # dq # t @ dq # q" by simp
  from least_a have "\<forall>a' w' t' q'. remaining st = a' @ w' # dq # t' @ dq # q'
                  \<and> a' \<noteq> [] \<and> (\<forall>x\<in>set a'. no_newline x) \<and> is_space w'
                  \<and> t' \<noteq> [] \<and> (\<forall>x\<in>set t'. no_newline x)
                  \<longrightarrow> length a \<le> length a' \<and> (length a' = length a \<longrightarrow> length t \<le> length t')"
    by blast
  with rem' a(2,3) r(2-5) show ?thesis by blast
qed

lemma regex_search_first:
  "regex_search r b s = Some f \<Longrightarrow>
     \<exists>q st' others. s = skipped f @ q
        \<and> matches r \<lparr>at_start = (b \<and> skipped f = []), remaining = q, captures = []\<rparr> = st' # others
        \<and> groups f = captures st' \<and> rest f = remaining st'
        \<and> (\<forall>p' q'. s = p' @ q' \<and> length p' < length (skipped f) \<longrightarrow>
               matches r \<lparr>at_start = (b \<and> p' = []), remaining = q', captures = []\<rparr> = [])"
proof (induction s arbitrary: b f)
  case Nil
  then obtain st sts where "matches r \<lparr>at_start = b, remaining = [], captures = []\<rparr> = st # sts"
    and "f = \<lparr>skipped = [], matched = take (length ([]::string) - length (remaining st)) [],
               groups = captures st, rest = remaining st\<rparr>"
    by (auto simp: regex_search.simps [of r b "[]"] split: list.splits)
  then show ?case by (intro exI [of _ "[]"] exI [of _ st] exI [of _ sts]) simp
next
  case (Cons x xs)
  show ?case
  proof (cases "matches r \<lparr>at_start = b, remaining = x # xs, captures = []\<rparr>")
    case hit: (Cons st sts)
    with Cons.prems have "f = \<lparr>skipped = [], matched = take (length (x # xs) - length (remaining st)) (x # xs),
               groups = captures st, rest = remaining st\<rparr>"
      by (simp add: regex_search.simps [of r b "x # xs"])
    with hit show ?thesis by (intro exI [of _ "x # xs"] exI [of _ st] exI [of _ sts]) simp
  next
    case Nil
    with Cons.prems obtain f' where f': "regex_search r False xs = Some f'" "f = f'\<lparr>skipped := x # skipped f'\<rparr>"
      by (auto simp: regex_search.simps [of r b "x # xs"] split: option.splits)
    from Cons.IH [OF f'(1)] obtain q st' others where IH: "xs = skipped f' @ q"
      "matches r \<lparr>at_start = False, remaining = q, captures = []\<rparr> = st' # others"
      "groups f' = captures st'" "rest f' = remaining st'"
      "\<forall>p' q'. xs = p' @ q' \<and> length p' < length (skipped f') \<longrightarrow>
               matches r \<lparr>at_start = False, remaining = q', captures = []\<rparr> = []"
      by auto
    have "matches r \<lparr>at_start = (b \<and> p' = []), remaining = q', captures = []\<rparr> = []"
      if "x # xs = p' @ q'" "length p' < length (skipped f)" for p' q'
    proof (cases p')
      case Nil
      with that Cons.prems \<open>matches r \<lparr>at_start = b, remaining = x # xs, captures = []\<rparr> = []\<close>
      show ?thesis by simp
    next
      case (Cons y p'')
      with that f'(2) have "xs = p'' @ q'" "length p'' < length (skipped f')" by simp_all
      with IH(5) Cons show ?thesis by simp
    qed
    then have "\<forall>p' q'. x # xs = p' @ q' \<and> length p' < length (skipped f) \<longrightarrow>
               matches r \<lparr>at_start = (b \<and> p' = []), remaining = q', captures = []\<rparr> = []"
      by blast
    with f' IH(1-4) show ?thesis
      by (intro exI [of _ q] exI [of _ st'] exI [of _ others]) simp
  qed
qed

lemma quoted_parts_matches:
  assumes "quoted_parts s p a t"
  shows "\<exists>q. s = p @ q \<and> matches quoted_title \<lparr>at_start = c, remaining = q, captures = []\<rparr> \<noteq> []"
proof -
  from assms obtain w q where s: "s = p @ (a @ w # dq # t @ dq # q)" and w: "is_space w"
    and a: "a \<noteq> []" "\<forall>x\<in>set a. no_newline x" and t: "t \<noteq> []" "\<forall>x\<in>set t. no_newline x"
    by (auto simp: quoted_parts_def)
  let ?st = "\<lparr>at_start = c, remaining = a @ w # dq # t @ dq # q, captures = []\<rparr>"
  have "capture_as 2 t (capture_as 1 a (consume ?st q)) \<in> set (matches quoted_title ?st)"
    unfolding matches_quoted_title_iff using w a t by auto
  then have "matches quoted_title ?st \<noteq> []" by auto
  with s show ?thesis by blast
qed

lemma quoted_title_search_first:
  "(\<exists>f p a t. regex_search quoted_title True s = Some f \<and> first_quoted_parts s p a t
       \<and> capture f 1 = JStr a \<and> capture f 2 = JStr t)
   \<or> (regex_search quoted_title True s = None \<and> (\<forall>p a t. \<not> quoted_parts s p a t))"
proof (cases "regex_search quoted_title True s")
  case None
  have "\<not> quoted_parts s p a t" for p a t
  proof
    assume "quoted_parts s p a t"
    from quoted_parts_matches [OF this, of "True \<and> p = []"] obtain q where
      "s = p @ q" "matches quoted_title \<lparr>at_start = (True \<and> p = []), remaining = q, captures = []\<rparr> \<noteq> []"
      by blast
    with regex_search_None [OF None, of p q] show False by simp
  qed
  with None show ?thesis by blast
next
  case (Some f)
  from regex_search_first [OF Some] obtain q0 st' others where s: "s = skipped f @ q0"
    and hd: "matches quoted_title \<lparr>at_start = (True \<and> skipped f = []), remaining = q0, captures = []\<rparr>
               = st' # others"
    and g: "groups f = captures st'"
    and before: "\<forall>p' q'. s = p' @ q' \<and> length p' < length (skipped f) \<longrightarrow>
               matches quoted_title \<lparr>at_start = (True \<and> p' = []), remaining = q', captures = []\<rparr> = []"
    by blast
  let ?st = "\<lparr>at_start = (True \<and> skipped f = []), remaining = q0, captures = []\<rparr>"
  from quoted_title_first [OF hd]
  obtain a w t q where q0: "q0 = a @ w # dq # t @ dq # q"
    and ok: "a \<noteq> []" "\<forall>x\<in>set a. no_newline x" "is_space w" "t \<noteq> []" "\<forall>x\<in>set t. no_newline x"
    and st': "st' = capture_as 2 t (capture_as 1 a (consume ?st q))"
    and least: "\<forall>a' w' t' q'. q0 = a' @ w' # dq # t' @ dq # q'
                  \<and> a' \<noteq> [] \<and> (\<forall>x\<in>set a'. no_newline x) \<and> is_space w'
                  \<and> t' \<noteq> [] \<and> (\<forall>x\<in>set t'. no_newline x)
                  \<longrightarrow> length a \<le> length a' \<and> (length a' = length a \<longrightarrow> length t \<le> length t')"
    by auto
  have parts: "quoted_parts s (skipped f) a t"
    unfolding quoted_parts_def using s q0 ok by blast
  have min: "length (skipped f) \<le> length p'
            \<and> (length p' = length (skipped f) \<longrightarrow>
                 length a \<le> length a' \<and> (length a' = length a \<longrightarrow> length t \<le> length t'))"
    if other: "quoted_parts s p' a' t'" for p' a' t'
  proof
    show "length (skipped f) \<le> length p'"
    proof (rule ccontr)
      assume "\<not> length (skipped f) \<le> length p'"
      then have less: "length p' < length (skipped f)" by simp
      from quoted_parts_matches [OF other, of "True \<and> p' = []"] obtain q' where
        "s = p' @ q'"
        "matches quoted_title \<lparr>at_start = (True \<and> p' = []), remaining = q', captures = []\<rparr> \<noteq> []"
        by blast
      with before less show False by blast
    qed
    show "length p' = length (skipped f) \<longrightarrow>
                 length a \<le> length a' \<and> (length a' = length a \<longrightarrow> length t \<le> length t')"
    proof
      assume len: "length p' = length (skipped f)"
      from other obtain w' q' where o: "s = p' @ a' @ w' # dq # t' @ dq # q'" "is_space w'"
        "a' \<noteq> []" "t' \<noteq> []" "\<forall>x\<in>set a'. no_newline x" "\<forall>x\<in>set t'. no_newline x"
        by (auto simp: quoted_parts_def)
      with s len have "q0 = a' @ w' # dq # t' @ dq # q'" by auto
      with least o show "length a \<le> length a' \<and> (length a' = length a \<longrightarrow> length t \<le> length t')"
        by blast
    qed
  qed
  have "first_quoted_parts s (skipped f) a t"
    unfolding first_quoted_parts_def using parts min by blast
  moreover from g st' have "capture f 1 = JStr a" "capture f 2 = JStr t"
    by (simp_all add: capture_def capture_as_def consume_def)
  ultimately show ?thesis using Some by blast
qed

lemma first_quoted_parts_unique:
  assumes "first_quoted_parts s p a t" and "first_quoted_parts s p' a' t'"
  shows "p' = p \<and> a' = a \<and> t' = t"
proof -
  from assms have parts: "quoted_parts s p a t" "quoted_parts s p' a' t'"
    by (simp_all add: first_quoted_parts_def)
  from assms(1) parts(2) have 1: "length p \<le> length p'"
    "length p' = length p \<longrightarrow> length a \<le> length a' \<and> (length a' = length a \<longrightarrow> length t \<le> length t')"
    unfolding first_quoted_parts_def by blast+
  from assms(2) parts(1) have 2: "length p' \<le> length p"
    "length p = length p' \<longrightarrow> length a' \<le> length a \<and> (length a = length a' \<longrightarrow> length t' \<le> length t)"
    unfolding first_quoted_parts_def by blast+
  from 1 2 have len: "length p' = length p" "length a' = length a" "length t' = length t"
    by auto
  from parts(1) obtain w q where "s = p @ a @ w # dq # t @ dq # q"
    unfolding quoted_parts_def by blast
  moreover from parts(2) obtain w' q' where "s = p' @ a' @ w' # dq # t' @ dq # q'"
    unfolding quoted_parts_def by blast
  ultimately show ?thesis using len by auto
qed

lemma first_quoted_parts_prefix:
  assumes "first_quoted_parts s p a t" and "\<forall>x\<in>set p. no_newline x"
  shows "p = []"
proof (rule ccontr)
  assume "p \<noteq> []"
  from assms(1) obtain w q where s: "s = p @ a @ w # dq # t @ dq # q" "is_space w"
    "a \<noteq> []" "t \<noteq> []" "\<forall>x\<in>set a. no_newline x" "\<forall>x\<in>set t. no_newline x"
    by (auto simp: first_quoted_parts_def quoted_parts_def)
  with assms(2) have "quoted_parts s [] (p @ a) t"
    unfolding quoted_parts_def by (intro exI [of _ w] exI [of _ q]) auto
  with assms(1) have "length p \<le> length ([]::string)"
    unfolding first_quoted_parts_def by blast
  with \<open>p \<noteq> []\<close> show False by simp
qed

lemma processYoutubeVideoTitle_falsy:
  "falsy v \<Longrightarrow> processYoutubeVideoTitle split v = Inr (JNull, JNull)"
  by (simp add: processYoutubeVideoTitle_def)

lemma processYoutubeVideoTitle_string:
  assumes "s \<noteq> []"
  shows "processYoutubeVideoTitle split (JStr s) =
     (case split (replace_first genre_tag [] s) of
        Inl e \<Rightarrow> Inl e
      | Inr (artist, track) \<Rightarrow>
          if artist = JNull \<and> track = JNull then
            (case regex_search quoted_title True (replace_first genre_tag [] s) of
               Some f \<Rightarrow> Inr (capture f 1, capture f 2)
             | None \<Rightarrow> Inr (artist, track))
          else Inr (artist, track))"
  using assms by (simp add: processYoutubeVideoTitle_def Let_def)

lemma processYoutubeVideoTitle_returns:
  assumes "falsy v \<or> (\<exists>s r. v = JStr s \<and> split (replace_first genre_tag [] s) = Inr r)"
  shows "\<exists>r. processYoutubeVideoTitle split v = Inr r"
proof (cases "falsy v")
  case True
  then show ?thesis by (simp add: processYoutubeVideoTitle_falsy)
next
  case False
  with assms obtain s r where v: "v = JStr s" and r: "split (replace_first genre_tag [] s) = Inr r"
    by blast
  with False have "s \<noteq> []" by simp
  then show ?thesis
    unfolding v processYoutubeVideoTitle_string [OF \<open>s \<noteq> []\<close>] r
    by (cases r) (auto split: option.splits)
qed

lemma processYoutubeVideoTitle_fallback:
  assumes "s \<noteq> []" and "split (replace_first genre_tag [] s) = Inr (JNull, JNull)"
  shows "(\<exists>p a t. first_quoted_parts (replace_first genre_tag [] s) p a t
            \<and> processYoutubeVideoTitle split (JStr s) = Inr (JStr a, JStr t))
       \<or> ((\<forall>p a t. \<not> quoted_parts (replace_first genre_tag [] s) p a t)
            \<and> processYoutubeVideoTitle split (JStr s) = Inr (JNull, JNull))"
  using quoted_title_search_first [of "replace_first genre_tag [] s"]
  unfolding processYoutubeVideoTitle_string [OF assms(1)] assms(2)
  by auto

lemma example_title:
  "processYoutubeVideoTitle null_splitter (JStr (''Artist Name '' @ [dq] @ ''Track Title'' @ [dq]))
     = Inr (JStr ''Artist Name'', JStr ''Track Title'')"
  by code_simp

text \<open>
  C4. On a falsy value the title parser returns \<open>null\<close> for both fields. On a falsy
  value or a string it returns a result whenever the primary splitter does. On a
  non-empty string for which the primary splitter returns \<open>null\<close> for both fields, the
  result is determined by the title without its genre tag. Either the title has
  parts of the form artist-like text, white space, double-quoted track-like text;
  then the artist and the track returned are those of the first such parts (the ones
  that start first, then have the shortest artist, then the shortest track), these
  parts are unique, and the artist starts the title unless a line terminator comes
  before it. Or the title has no such parts and both fields are \<open>null\<close>. The title
  \<open>Artist Name "Track Title"\<close> gives the artist \<open>Artist Name\<close> and the track
  \<open>Track Title\<close>.
\<close>

theorem title_quoted_fallback:
  "(falsy v \<longrightarrow> processYoutubeVideoTitle split v = Inr (JNull, JNull))
   \<and> (falsy v \<or> (\<exists>s r. v = JStr s \<and> split (replace_first genre_tag [] s) = Inr r)
        \<longrightarrow> (\<exists>r. processYoutubeVideoTitle split v = Inr r))
   \<and> (s \<noteq> [] \<and> split (replace_first genre_tag [] s) = Inr (JNull, JNull) \<longrightarrow>
        (\<exists>p a t. first_quoted_parts (replace_first genre_tag [] s) p a t
            \<and> ((\<forall>x\<in>set p. no_newline x) \<longrightarrow> p = [])
            \<and> (\<forall>p' a' t'. first_quoted_parts (replace_first genre_tag [] s) p' a' t'
                  \<longrightarrow> p' = p \<and> a' = a \<and> t' = t)
            \<and> processYoutubeVideoTitle split (JStr s) = Inr (JStr a, JStr t))
        \<or> ((\<forall>p a t. \<not> quoted_parts (replace_first genre_tag [] s) p a t)
            \<and> processYoutubeVideoTitle split (JStr s) = Inr (JNull, JNull)))
   \<and> processYoutubeVideoTitle null_splitter (JStr (''Artist Name '' @ [dq] @ ''Track Title'' @ [dq]))
        = Inr (JStr ''Artist Name'', JStr ''Track Title'')"
proof -
  have fallback: "(\<exists>p a t. first_quoted_parts (replace_first genre_tag [] s) p a t
            \<and> ((\<forall>x\<in>set p. no_newline x) \<longrightarrow> p = [])
            \<and> (\<forall>p' a' t'. first_quoted_parts (replace_first genre_tag [] s) p' a' t'
                  \<longrightarrow> p' = p \<and> a' = a \<and> t' = t)
            \<and> processYoutubeVideoTitle split (JStr s) = Inr (JStr a, JStr t))
        \<or> ((\<forall>p a t. \<not> quoted_parts (replace_first genre_tag [] s) p a t)
            \<and> processYoutubeVideoTitle split (JStr s) = Inr (JNull, JNull))"
    if h: "s \<noteq> []" "split (replace_first genre_tag [] s) = Inr (JNull, JNull)"
  proof -
    from processYoutubeVideoTitle_fallback [of s split] h
    consider p a t where "first_quoted_parts (replace_first genre_tag [] s) p a t"
        "processYoutubeVideoTitle split (JStr s) = Inr (JStr a, JStr t)"
      | "\<forall>p a t. \<not> quoted_parts (replace_first genre_tag [] s) p a t"
        "processYoutubeVideoTitle split (JStr s) = Inr (JNull, JNull)"
      by blast
    then show ?thesis
    proof cases
      case 1
      have "(\<forall>x\<in>set p. no_newline x) \<longrightarrow> p = []"
        using first_quoted_parts_prefix [of "replace_first genre_tag [] s" p a t] 1(1) by blast
      moreover have "\<forall>p' a' t'. first_quoted_parts (replace_first genre_tag [] s) p' a' t'
                  \<longrightarrow> p' = p \<and> a' = a \<and> t' = t"
        using first_quoted_parts_unique [of "replace_first genre_tag [] s" p a t] 1(1) by blast
      ultimately show ?thesis using 1 by blast
    next
      case 2
      then show ?thesis by blast
    qed
  qed
  show ?thesis
    using processYoutubeVideoTitle_falsy [of v split] processYoutubeVideoTitle_returns [of v split]
      fallback example_title
    by blast
qed

theorem title_quoted_fallback_witness:
  "falsy JNull
   \<and> processYoutubeVideoTitle null_splitter JNull = Inr (JNull, JNull)
   \<and> ''Abba '' @ [dq] @ ''SOS'' @ [dq] \<noteq> []
   \<and> null_splitter (replace_first genre_tag [] (''Abba '' @ [dq] @ ''SOS'' @ [dq])) = Inr (JNull, JNull)
   \<and> (\<exists>r. processYoutubeVideoTitle null_splitter (JStr (''Abba '' @ [dq] @ ''SOS'' @ [dq])) = Inr r)
   \<and> processYoutubeVideoTitle null_splitter (JStr (''Abba '' @ [dq] @ ''SOS'' @ [dq]))
        = Inr (JStr ''Abba'', JStr ''SOS'')"
proof -
  have "falsy JNull" by simp
  moreover have "''Abba '' @ [dq] @ ''SOS'' @ [dq] \<noteq> []" by simp
  moreover have "null_splitter (replace_first genre_tag [] (''Abba '' @ [dq] @ ''SOS'' @ [dq])) = Inr (JNull, JNull)"
    by simp
  moreover have "processYoutubeVideoTitle null_splitter (JStr (''Abba '' @ [dq] @ ''SOS'' @ [dq]))
        = Inr (JStr ''Abba'', JStr ''SOS'')"
    by code_simp
  ultimately show ?thesis
    using title_quoted_fallback [of JNull null_splitter "''Abba '' @ [dq] @ ''SOS'' @ [dq]"]
    by blast
qed

text \<open>
  C5. The track filter of the YouTube preset turns
  \<open>"Rick Astley - Never Gonna Give You Up (Official Music Video)"\<close> into
  \<open>"Rick Astley - Never Gonna Give You Up"\<close>: the rule set already yields it, and the
  trim that follows leaves it as it is.
\<close>

theorem youtube_filter_example:
  "\<exists>m. getYoutubeFilter = Inr m
     \<and> filterTrack m (JStr ''Rick Astley - Never Gonna Give You Up (Official Music Video)'')
       = ([JStr ''Rick Astley - Never Gonna Give You Up (Official Music Video)'',
           JStr ''Rick Astley - Never Gonna Give You Up''],
          Inr (JStr ''Rick Astley - Never Gonna Give You Up''))"
proof -
  have "filterTrack youtube_merged
          (JStr ''Rick Astley - Never Gonna Give You Up (Official Music Video)'')
        = ([JStr ''Rick Astley - Never Gonna Give You Up (Official Music Video)'',
            JStr ''Rick Astley - Never Gonna Give You Up''],
           Inr (JStr ''Rick Astley - Never Gonna Give You Up''))"
    by code_simp
  with getYoutubeFilter_merged show ?thesis by blast
qed

text \<open>
  C7. The track filter of the remastered preset turns \<open>"Let It Be (Remastered 2009)"\<close>
  into \<open>"Let It Be"\<close>: first the rule set removes the parenthesis and leaves
  \<open>"Let It Be "\<close>, then trim removes the space at the end.
\<close>

theorem remastered_filter_example:
  "\<exists>m. getRemasteredFilter = Inr m
     \<and> filterTrack m (JStr ''Let It Be (Remastered 2009)'')
       = ([JStr ''Let It Be (Remastered 2009)'', JStr ''Let It Be ''], Inr (JStr ''Let It Be''))"
proof -
  have "filterTrack remastered_merged (JStr ''Let It Be (Remastered 2009)'')
        = ([JStr ''Let It Be (Remastered 2009)'', JStr ''Let It Be ''], Inr (JStr ''Let It Be''))"
    by code_simp
  with getRemasteredFilter_merged show ?thesis by blast
qed

end
